theory Spec2Isabelle
  imports Complex_Main "HOL-Library.Word"
begin

section \<open>Constants of \<^verbatim>\<open>main.py\<close>\<close>

definition DEFAULT_WIDTH :: int where "DEFAULT_WIDTH = 800"
definition DEFAULT_HEIGHT :: int where "DEFAULT_HEIGHT = 600"
definition DEFAULT_PEN_SIZE :: int where "DEFAULT_PEN_SIZE = 5"
definition MAX_PEN_SIZE :: int where "MAX_PEN_SIZE = 100"
definition MIN_PEN_SIZE :: int where "MIN_PEN_SIZE = 1"
definition MAX_UNDO_STATES :: nat where "MAX_UNDO_STATES = 50"
definition MAX_CANVAS_DIM :: int where "MAX_CANVAS_DIM = 10000"

section \<open>Python integers and Qt's \<^verbatim>\<open>int\<close>\<close>

text \<open>
  A Python \<^verbatim>\<open>int\<close> is unbounded and is modelled by \<open>int\<close>. Qt takes a C++ \<^verbatim>\<open>int\<close>: a
  Python \<^verbatim>\<open>int\<close> passed to a Qt function is accepted within 32 bits, and outside them the
  call raises \<^verbatim>\<open>OverflowError\<close> before the Qt function runs. \<^verbatim>\<open>QSize(w, h)\<close> is such a
  call.
\<close>

datatype py_error = OverflowError

definition fits_int :: "int \<Rightarrow> bool" where
  "fits_int x \<longleftrightarrow> - (2 ^ 31) \<le> x \<and> x < 2 ^ 31"

definition QSize :: "int \<Rightarrow> int \<Rightarrow> py_error + int \<times> int" where
  "QSize w h = (if fits_int w \<and> fits_int h then Inr (w, h) else Inl OverflowError)"

section \<open>Colours and the pixel buffer\<close>

text \<open>
  A \<^verbatim>\<open>QColor\<close> of an ARGB32 image: four 8-bit channels, or the invalid colour that
  \<^verbatim>\<open>QColor()\<close> and an out-of-range \<^verbatim>\<open>pixelColor\<close> give. \<open>RGBA r g b a\<close> is
  \<^verbatim>\<open>QColor(r, g, b, a)\<close>.
\<close>

datatype qcolor = Invalid | RGBA "8 word" "8 word" "8 word" "8 word"

definition isValid :: "qcolor \<Rightarrow> bool" where
  "isValid c = (c \<noteq> Invalid)"

definition transparent :: qcolor where "transparent = RGBA 0 0 0 0"
definition black :: qcolor where "black = RGBA 0 0 0 255"
definition white :: qcolor where "white = RGBA 255 255 255 255"
definition red :: qcolor where "red = RGBA 255 0 0 255"

text \<open>
  A \<^verbatim>\<open>QImage\<close>: its width, its height and the colour stored at each coordinate.
  Coordinates are Qt's \<^verbatim>\<open>int\<close> pairs; every image the operations below build holds
  \<open>Invalid\<close> outside its rectangle, which is also what \<^verbatim>\<open>pixelColor\<close> answers there.
\<close>

record qimage =
  img_width :: int
  img_height :: int
  img_pixels :: "int \<times> int \<Rightarrow> qcolor"

text \<open>\<^verbatim>\<open>image.rect().contains(p)\<close>\<close>

definition rect_contains :: "qimage \<Rightarrow> int \<times> int \<Rightarrow> bool" where
  "rect_contains img p =
     (0 \<le> fst p \<and> fst p < img_width img \<and> 0 \<le> snd p \<and> snd p < img_height img)"

text \<open>\<^verbatim>\<open>QImage(size, Format_ARGB32)\<close> followed by \<^verbatim>\<open>fill(c)\<close>; a size with a
  non-positive side gives Qt's null image, of width and height 0. Qt also gives the null
  image when it cannot get the memory for the pixels; the memory is taken as given here.\<close>

definition filled_image :: "int \<times> int \<Rightarrow> qcolor \<Rightarrow> qimage" where
  "filled_image sz c =
     (if fst sz \<le> 0 \<or> snd sz \<le> 0
      then \<lparr>img_width = 0, img_height = 0, img_pixels = (\<lambda>p. Invalid)\<rparr>
      else \<lparr>img_width = fst sz, img_height = snd sz,
            img_pixels = (\<lambda>p. if 0 \<le> fst p \<and> fst p < fst sz \<and> 0 \<le> snd p \<and> snd p < snd sz
                               then c else Invalid)\<rparr>)"

text \<open>\<^verbatim>\<open>image.isNull()\<close>: a null image has no pixels.\<close>

definition isNull :: "qimage \<Rightarrow> bool" where
  "isNull img = (img_width img \<le> 0 \<or> img_height img \<le> 0)"

text \<open>\<^verbatim>\<open>image.fill(c)\<close> on an existing image.\<close>

definition fill_image :: "qimage \<Rightarrow> qcolor \<Rightarrow> qimage" where
  "fill_image img c =
     img\<lparr>img_pixels := (\<lambda>p. if rect_contains img p then c else Invalid)\<rparr>"

text \<open>\<^verbatim>\<open>pixelColor\<close> warns and answers the invalid colour out of range;
  \<^verbatim>\<open>setPixelColor\<close> warns and writes nothing out of range or for an invalid colour.\<close>

definition pixelColor :: "qimage \<Rightarrow> int \<times> int \<Rightarrow> qcolor" where
  "pixelColor img p = (if rect_contains img p then img_pixels img p else Invalid)"

definition setPixelColor :: "qimage \<Rightarrow> int \<times> int \<Rightarrow> qcolor \<Rightarrow> qimage" where
  "setPixelColor img p c =
     (if \<not> rect_contains img p \<or> \<not> isValid c then img
      else img\<lparr>img_pixels := (img_pixels img)(p := c)\<rparr>)"

section \<open>Flood fill: the traversal loop of \<^verbatim>\<open>Canvas.flood_fill\<close>\<close>

text \<open>
  The loop state is the image, the work queue (a \<^verbatim>\<open>deque\<close> used first-in first-out)
  and the \<^verbatim>\<open>processed\<close> set.

  \<^verbatim>\<open>neighbors = [(x + 1, y), (x - 1, y), (x, y + 1), (x, y - 1)]\<close>
\<close>

type_synonym fill_state = "qimage \<times> (int \<times> int) list \<times> (int \<times> int) set"

definition neighbors :: "int \<times> int \<Rightarrow> (int \<times> int) list" where
  "neighbors p = [(fst p + 1, snd p), (fst p - 1, snd p), (fst p, snd p + 1), (fst p, snd p - 1)]"

text \<open>The body of the inner \<^verbatim>\<open>for\<close>:
  \<^verbatim>\<open>if (nx, ny) not in processed: queue.append((nx, ny)); processed.add((nx, ny))\<close>\<close>

definition enqueue :: "(int \<times> int) list \<times> (int \<times> int) set \<Rightarrow> int \<times> int
                        \<Rightarrow> (int \<times> int) list \<times> (int \<times> int) set" where
  "enqueue qp n = (if n \<notin> snd qp then (fst qp @ [n], insert n (snd qp)) else qp)"

text \<open>One pass of the \<^verbatim>\<open>while\<close> body, for the coordinate \<open>p\<close> that \<^verbatim>\<open>popleft\<close>
  returned; \<open>w\<close> and \<open>h\<close> are \<^verbatim>\<open>img_width\<close> and \<^verbatim>\<open>img_height\<close>, read once before
  the loop.\<close>

definition flood_visit :: "int \<Rightarrow> int \<Rightarrow> qcolor \<Rightarrow> qcolor \<Rightarrow> int \<times> int \<Rightarrow> fill_state \<Rightarrow> fill_state" where
  "flood_visit w h target_color fill_color p s =
     (case s of (img, queue, processed) \<Rightarrow>
        if \<not> (0 \<le> fst p \<and> fst p < w \<and> 0 \<le> snd p \<and> snd p < h) then s
        else if pixelColor img p = target_color then
          (case foldl enqueue (queue, processed) (neighbors p) of
             (queue', processed') \<Rightarrow> (setPixelColor img p fill_color, queue', processed'))
        else s)"

text \<open>The potential that every pass lowers by one: the coordinates of the image
  rectangle and its one-pixel border not yet in \<open>processed\<close>, plus the queue length.\<close>

definition border_rect :: "int \<Rightarrow> int \<Rightarrow> (int \<times> int) set" where
  "border_rect w h = {-1..w} \<times> {-1..h}"

definition fill_potential :: "int \<Rightarrow> int \<Rightarrow> fill_state \<Rightarrow> nat" where
  "fill_potential w h s =
     (case s of (img, queue, processed) \<Rightarrow> card (border_rect w h - processed) + length queue)"

lemma finite_border_rect [simp]: "finite (border_rect w h)"
  by (simp add: border_rect_def)

lemma neighbors_in_border:
  assumes "0 \<le> fst p" "fst p < w" "0 \<le> snd p" "snd p < h"
  shows "set (neighbors p) \<subseteq> border_rect w h"
  using assms by (auto simp: neighbors_def border_rect_def)

lemma enqueue_potential:
  assumes "n \<in> border_rect w h"
  shows "card (border_rect w h - snd (enqueue qp n)) + length (fst (enqueue qp n))
         = card (border_rect w h - snd qp) + length (fst qp)"
proof (cases "n \<in> snd qp")
  case True
  then show ?thesis by (simp add: enqueue_def)
next
  case False
  have fin: "finite (border_rect w h - snd qp)" by simp
  have mem: "n \<in> border_rect w h - snd qp" using assms False by simp
  have eq: "border_rect w h - insert n (snd qp) = (border_rect w h - snd qp) - {n}" by auto
  have "card ((border_rect w h - snd qp) - {n}) = card (border_rect w h - snd qp) - 1"
    using fin mem by simp
  moreover have "0 < card (border_rect w h - snd qp)"
    using fin mem card_gt_0_iff by blast
  ultimately show ?thesis using False by (simp add: enqueue_def eq)
qed

lemma foldl_enqueue_potential:
  assumes "set ns \<subseteq> border_rect w h"
  shows "card (border_rect w h - snd (foldl enqueue qp ns)) + length (fst (foldl enqueue qp ns))
         = card (border_rect w h - snd qp) + length (fst qp)"
  using assms
proof (induction ns arbitrary: qp)
  case Nil
  then show ?case by simp
next
  case (Cons n ns)
  then show ?case by (simp add: enqueue_potential)
qed

lemma flood_visit_potential:
  "fill_potential w h (flood_visit w h tc fc p (img, queue, processed))
   = fill_potential w h (img, queue, processed)"
proof (cases "0 \<le> fst p \<and> fst p < w \<and> 0 \<le> snd p \<and> snd p < h \<and> pixelColor img p = tc")
  case True
  then have sub: "set (neighbors p) \<subseteq> border_rect w h"
    by (simp add: neighbors_in_border)
  obtain q' pr' where f: "foldl enqueue (queue, processed) (neighbors p) = (q', pr')"
    by (cases "foldl enqueue (queue, processed) (neighbors p)")
  from foldl_enqueue_potential [OF sub, of "(queue, processed)"] f
  have "card (border_rect w h - pr') + length q' = card (border_rect w h - processed) + length queue"
    by simp
  with True f show ?thesis by (simp add: flood_visit_def fill_potential_def)
next
  case False
  then show ?thesis by (auto simp: flood_visit_def fill_potential_def)
qed

text \<open>
  \<^verbatim>\<open>while queue: x, y = queue.popleft(); ...\<close>

  The loop ends with the queue empty; it returns the final image and \<open>processed\<close> set.
\<close>

function flood_loop :: "int \<Rightarrow> int \<Rightarrow> qcolor \<Rightarrow> qcolor \<Rightarrow> fill_state \<Rightarrow> fill_state" where
  "flood_loop w h target_color fill_color (img, [], processed) = (img, [], processed)"
| "flood_loop w h target_color fill_color (img, p # queue, processed) =
     flood_loop w h target_color fill_color
       (flood_visit w h target_color fill_color p (img, queue, processed))"
  by pat_completeness auto
termination
proof (relation "measure (\<lambda>(w, h, tc, fc, s). fill_potential w h s)")
  show "wf (measure (\<lambda>(w, h, tc, fc, s). fill_potential w h s))" by simp
next
  fix w h :: int and target_color fill_color :: qcolor and img :: qimage
    and p :: "int \<times> int" and queue :: "(int \<times> int) list" and processed :: "(int \<times> int) set"
  have "fill_potential w h (flood_visit w h target_color fill_color p (img, queue, processed))
        = fill_potential w h (img, queue, processed)"
    by (rule flood_visit_potential)
  moreover have "fill_potential w h (img, queue, processed) < fill_potential w h (img, p # queue, processed)"
    by (simp add: fill_potential_def)
  ultimately show "((w, h, target_color, fill_color,
            flood_visit w h target_color fill_color p (img, queue, processed)),
           (w, h, target_color, fill_color, img, p # queue, processed))
          \<in> measure (\<lambda>(w, h, tc, fc, s). fill_potential w h s)"
    by simp
qed

text \<open>The sequence of coordinates that \<^verbatim>\<open>popleft\<close> returns during the loop, in order:
  one entry per pass of the loop.\<close>

function flood_pops :: "int \<Rightarrow> int \<Rightarrow> qcolor \<Rightarrow> qcolor \<Rightarrow> fill_state \<Rightarrow> (int \<times> int) list" where
  "flood_pops w h target_color fill_color (img, [], processed) = []"
| "flood_pops w h target_color fill_color (img, p # queue, processed) =
     p # flood_pops w h target_color fill_color
           (flood_visit w h target_color fill_color p (img, queue, processed))"
  by pat_completeness auto
termination
proof (relation "measure (\<lambda>(w, h, tc, fc, s). fill_potential w h s)")
  show "wf (measure (\<lambda>(w, h, tc, fc, s). fill_potential w h s))" by simp
next
  fix w h :: int and target_color fill_color :: qcolor and img :: qimage
    and p :: "int \<times> int" and queue :: "(int \<times> int) list" and processed :: "(int \<times> int) set"
  have "fill_potential w h (flood_visit w h target_color fill_color p (img, queue, processed))
        < fill_potential w h (img, p # queue, processed)"
    by (simp add: flood_visit_potential) (simp add: fill_potential_def)
  then show "((w, h, target_color, fill_color,
            flood_visit w h target_color fill_color p (img, queue, processed)),
           (w, h, target_color, fill_color, img, p # queue, processed))
          \<in> measure (\<lambda>(w, h, tc, fc, s). fill_potential w h s)"
    by simp
qed

section \<open>The painter\<close>

text \<open>
  \<^verbatim>\<open>QPainter\<close> rasterises the dab and the line and draws one image onto another; it is
  Qt's, and the canvas operations take it as the parameter \<open>qp\<close>:
  \<open>drawPoint qp mode colour width point image\<close> is the image after
  \<^verbatim>\<open>painter.drawPoint(point)\<close> with the composition mode and a round-capped pen of that
  colour and width, \<open>drawLine\<close> likewise for \<^verbatim>\<open>painter.drawLine(from, to)\<close>, and
  \<open>drawImage qp target_rect source source_rect image\<close> is the image after
  \<^verbatim>\<open>painter.drawImage(target_rect, source, source_rect)\<close>. A rectangle
  \<^verbatim>\<open>QRect(top_left, size)\<close> is the pair of its top left corner and its size.
\<close>

datatype composition_mode = CompositionMode_SourceOver | CompositionMode_Clear

type_synonym qrect = "(int \<times> int) \<times> (int \<times> int)"

record painter =
  drawPoint :: "composition_mode \<Rightarrow> qcolor \<Rightarrow> int \<Rightarrow> real \<times> real \<Rightarrow> qimage \<Rightarrow> qimage"
  drawLine :: "composition_mode \<Rightarrow> qcolor \<Rightarrow> int \<Rightarrow> real \<times> real \<Rightarrow> real \<times> real \<Rightarrow> qimage \<Rightarrow> qimage"
  drawImage :: "qrect \<Rightarrow> qimage \<Rightarrow> qrect \<Rightarrow> qimage \<Rightarrow> qimage"

section \<open>The canvas\<close>

text \<open>
  The fields of \<^verbatim>\<open>Canvas\<close> that hold the drawing state. \<open>image_buf\<close> is
  \<^verbatim>\<open>self.image\<close>, \<open>image_size\<close> is \<^verbatim>\<open>self._image_size\<close>, and \<open>emitted\<close> is the log of
  the Qt signals emitted so far, oldest first. A history entry is the tuple
  \<^verbatim>\<open>(self.image.copy(), self._image_size)\<close>.

  The two scroll bars belong to the scroll area around the canvas. The values
  \<^verbatim>\<open>h_bar.value()\<close> and \<^verbatim>\<open>v_bar.value()\<close> enter an operation that reads them as its
  argument \<open>bars\<close>, and \<open>scroll_calls\<close> is the log of the \<^verbatim>\<open>setValue\<close> calls the canvas
  has made on them, oldest first. What a bar does with the value it is given (it keeps
  it within its range, which the scroll area sets) is Qt's.

  The model gives the canvas an operation leaves behind. An exception raised in an event
  handler or a slot ends the call and is reported, and the canvas then has the
  assignments made before the raise.

  The widget's fixed size, the cursor shape, the checkerboard and the repaint requests
  (\<^verbatim>\<open>self.update()\<close>) are presentation state and stay outside the model; the widget size
  \<^verbatim>\<open>_update_widget_size\<close> computes, the image size times the scale factor, is taken to
  fit in 32 bits.
\<close>

datatype signal = color_changed qcolor | pen_size_changed int | history_changed

datatype scroll_call = h_bar_setValue int | v_bar_setValue int

type_synonym snapshot = "qimage \<times> (int \<times> int)"

record canvas =
  current_tool :: string
  current_color :: qcolor
  brush_size :: int
  eraser_size :: int
  drawing :: bool
  last_point :: "real \<times> real"
  image_size :: "int \<times> int"
  image_buf :: qimage
  scale_factor :: real
  cursor_pos :: "int \<times> int"
  undo_stack :: "snapshot list"
  redo_stack :: "snapshot list"
  current_stroke_saved :: bool
  panning :: bool
  pan_start_pos :: "int \<times> int"
  scroll_calls :: "scroll_call list"
  emitted :: "signal list"

text \<open>\<^verbatim>\<open>Canvas.__init__\<close>: an 800 x 600 transparent image, both history stacks empty.\<close>

definition Canvas_init :: canvas where
  "Canvas_init =
     \<lparr>current_tool = ''brush'', current_color = black,
      brush_size = DEFAULT_PEN_SIZE, eraser_size = DEFAULT_PEN_SIZE,
      drawing = False, last_point = (0, 0),
      image_size = (DEFAULT_WIDTH, DEFAULT_HEIGHT),
      image_buf = filled_image (DEFAULT_WIDTH, DEFAULT_HEIGHT) transparent,
      scale_factor = 1, cursor_pos = (0, 0),
      undo_stack = [], redo_stack = [], current_stroke_saved = False,
      panning = False, pan_start_pos = (0, 0), scroll_calls = [], emitted = []\<rparr>"

text \<open>\<^verbatim>\<open>deque(maxlen=MAX_UNDO_STATES).append(x)\<close>: the newest entry is last; a full
  deque drops its oldest (leftmost) entry.\<close>

definition deque_append :: "'a list \<Rightarrow> 'a \<Rightarrow> 'a list" where
  "deque_append d x = (if length (d @ [x]) > MAX_UNDO_STATES then tl (d @ [x]) else d @ [x])"

subsection \<open>Flood fill\<close>

text \<open>\<^verbatim>\<open>Canvas.flood_fill(start_image_point, erase_mode)\<close>. The two early returns come
  first; the loop starts from \<^verbatim>\<open>queue = deque([start])\<close>, \<^verbatim>\<open>processed = set([start])\<close>.\<close>

definition flood_fill :: "canvas \<Rightarrow> int \<times> int \<Rightarrow> bool \<Rightarrow> canvas" where
  "flood_fill c start_image_point erase_mode =
     (if \<not> rect_contains (image_buf c) start_image_point then c
      else
        let target_color = pixelColor (image_buf c) start_image_point;
            fill_color = (if erase_mode then RGBA 0 0 0 0 else current_color c)
        in if target_color = fill_color then c
           else c\<lparr>image_buf :=
                    fst (flood_loop (img_width (image_buf c)) (img_height (image_buf c))
                           target_color fill_color
                           (image_buf c, [start_image_point], {start_image_point}))\<rparr>)"

subsection \<open>Undo and redo\<close>

text \<open>\<^verbatim>\<open>Canvas._save_state(initial=False)\<close>\<close>

definition save_state :: "canvas \<Rightarrow> bool \<Rightarrow> canvas" where
  "save_state c initial =
     (let state_tuple = (image_buf c, image_size c);
          c1 = c\<lparr>undo_stack := deque_append (undo_stack c) state_tuple\<rparr>;
          c2 = (if \<not> initial then c1\<lparr>redo_stack := []\<rparr> else c1);
          c3 = c2\<lparr>emitted := emitted c2 @ [history_changed]\<rparr>
      in c3\<lparr>current_stroke_saved := False\<rparr>)"

definition can_undo :: "canvas \<Rightarrow> bool" where
  "can_undo c = (length (undo_stack c) > 1)"

definition can_redo :: "canvas \<Rightarrow> bool" where
  "can_redo c = (length (redo_stack c) > 0)"

text \<open>\<^verbatim>\<open>Canvas.undo\<close>: \<^verbatim>\<open>undo_stack.pop()\<close> takes the newest entry; the guard makes the
  stack non-empty there.\<close>

definition undo :: "canvas \<Rightarrow> canvas" where
  "undo c =
     (if \<not> can_undo c then c
      else
        let current_state = (image_buf c, image_size c);
            c1 = c\<lparr>redo_stack := deque_append (redo_stack c) current_state\<rparr>;
            prev = last (undo_stack c1);
            c2 = c1\<lparr>undo_stack := butlast (undo_stack c1)\<rparr>;
            c3 = c2\<lparr>image_buf := fst prev, image_size := snd prev\<rparr>
        in c3\<lparr>emitted := emitted c3 @ [history_changed]\<rparr>)"

text \<open>\<^verbatim>\<open>Canvas.redo\<close>\<close>

definition redo :: "canvas \<Rightarrow> canvas" where
  "redo c =
     (if \<not> can_redo c then c
      else
        let current_state = (image_buf c, image_size c);
            c1 = c\<lparr>undo_stack := deque_append (undo_stack c) current_state\<rparr>;
            nxt = last (redo_stack c1);
            c2 = c1\<lparr>redo_stack := butlast (redo_stack c1)\<rparr>;
            c3 = c2\<lparr>image_buf := fst nxt, image_size := snd nxt\<rparr>
        in c3\<lparr>emitted := emitted c3 @ [history_changed]\<rparr>)"

subsection \<open>Clearing, resizing, loading\<close>

text \<open>\<^verbatim>\<open>Canvas.clear_canvas\<close>\<close>

definition clear_canvas :: "canvas \<Rightarrow> canvas" where
  "clear_canvas c =
     (let c1 = c\<lparr>current_stroke_saved := True\<rparr>;
          c2 = save_state c1 False
      in c2\<lparr>image_buf := fill_image (image_buf c2) transparent\<rparr>)"

text \<open>\<^verbatim>\<open>MainWindow.set_up_canvas\<close>, which the entry point calls once on the new canvas.\<close>

definition set_up_canvas :: "canvas \<Rightarrow> canvas" where
  "set_up_canvas c = clear_canvas c"

text \<open>\<^verbatim>\<open>QSize.boundedTo\<close>\<close>

definition boundedTo :: "int \<times> int \<Rightarrow> int \<times> int \<Rightarrow> int \<times> int" where
  "boundedTo a b = (min (fst a) (fst b), min (snd a) (snd b))"

text \<open>
  \<^verbatim>\<open>Canvas.resize_canvas(new_width, new_height)\<close>. When \<^verbatim>\<open>QSize(new_width, new_height)\<close>
  raises, nothing has been assigned yet and the canvas is as it was. A \<^verbatim>\<open>QPainter\<close> on a
  null image is not active and draws nothing.
\<close>

definition resize_canvas :: "painter \<Rightarrow> canvas \<Rightarrow> int \<Rightarrow> int \<Rightarrow> canvas" where
  "resize_canvas qp c new_width new_height =
     (case QSize new_width new_height of
        Inl e \<Rightarrow> c
      | Inr new_size \<Rightarrow>
          if new_size = image_size c then c
          else
            let c1 = save_state c False;
                new_image = filled_image new_size transparent;
                target_rect = ((0, 0), boundedTo (image_size c1) new_size);
                source_rect = ((0, 0), snd target_rect);
                new_image' = (if isNull new_image then new_image
                              else drawImage qp target_rect (image_buf c1) source_rect new_image)
            in c1\<lparr>image_buf := new_image', image_size := new_size\<rparr>)"

subsection \<open>The resize dialog\<close>

text \<open>
  A \<^verbatim>\<open>QSpinBox\<close>: its range and its value, which Qt keeps within the range. A new box has
  the range 0 to 99 and the value 0; \<^verbatim>\<open>setRange\<close> and \<^verbatim>\<open>setValue\<close> move the value to the
  nearest one in the range.
\<close>

record spinbox =
  sb_minimum :: int
  sb_maximum :: int
  sb_value :: int

definition QSpinBox :: spinbox where
  "QSpinBox = \<lparr>sb_minimum = 0, sb_maximum = 99, sb_value = 0\<rparr>"

definition setRange :: "spinbox \<Rightarrow> int \<Rightarrow> int \<Rightarrow> spinbox" where
  "setRange sb lo hi =
     \<lparr>sb_minimum = lo, sb_maximum = max lo hi, sb_value = max lo (min (sb_value sb) (max lo hi))\<rparr>"

definition setValue :: "spinbox \<Rightarrow> int \<Rightarrow> spinbox" where
  "setValue sb v = sb\<lparr>sb_value := max (sb_minimum sb) (min v (sb_maximum sb))\<rparr>"

text \<open>\<^verbatim>\<open>ResizeDialog.__init__(current_width, current_height)\<close> and
  \<^verbatim>\<open>ResizeDialog.getDimensions\<close>\<close>

record resize_dialog =
  width_spinbox :: spinbox
  height_spinbox :: spinbox

definition ResizeDialog_init :: "int \<Rightarrow> int \<Rightarrow> resize_dialog" where
  "ResizeDialog_init current_width current_height =
     \<lparr>width_spinbox = setValue (setRange QSpinBox 1 MAX_CANVAS_DIM) current_width,
      height_spinbox = setValue (setRange QSpinBox 1 MAX_CANVAS_DIM) current_height\<rparr>"

definition getDimensions :: "resize_dialog \<Rightarrow> int \<times> int" where
  "getDimensions d = (sb_value (width_spinbox d), sb_value (height_spinbox d))"

text \<open>
  \<^verbatim>\<open>dialog.exec()\<close>: the user edits the two boxes, then accepts or cancels. Whatever the
  user does, a box holds a value of its range when \<^verbatim>\<open>exec\<close> returns. \<open>entered\<close> stands for
  the editing: a value of the range is the value the box then holds, and any other one
  leaves the box at the nearest bound.
\<close>

definition dialog_exec :: "resize_dialog \<Rightarrow> int \<times> int \<Rightarrow> resize_dialog" where
  "dialog_exec d entered =
     d\<lparr>width_spinbox := setValue (width_spinbox d) (fst entered),
       height_spinbox := setValue (height_spinbox d) (snd entered)\<rparr>"

text \<open>\<^verbatim>\<open>MainWindow.show_resize_dialog\<close>; \<open>accepted\<close> is the answer of
  \<^verbatim>\<open>dialog.exec()\<close>. The warning of the last branch is a message box.\<close>

definition show_resize_dialog :: "painter \<Rightarrow> canvas \<Rightarrow> bool \<Rightarrow> int \<times> int \<Rightarrow> canvas" where
  "show_resize_dialog qp c accepted entered =
     (let current_w = fst (image_size c);
          current_h = snd (image_size c);
          dialog = dialog_exec (ResizeDialog_init current_w current_h) entered
      in if accepted then
           (let new_w = fst (getDimensions dialog);
                new_h = snd (getDimensions dialog)
            in if new_w > 0 \<and> new_h > 0 then resize_canvas qp c new_w new_h else c)
         else c)"

text \<open>\<^verbatim>\<open>Canvas.load_image(new_image)\<close>. The image is taken as already converted to
  ARGB32.\<close>

definition load_image :: "canvas \<Rightarrow> qimage \<Rightarrow> canvas" where
  "load_image c new_image =
     (if isNull new_image then c
      else
        let c1 = c\<lparr>image_buf := new_image, image_size := (img_width new_image, img_height new_image)\<rparr>;
            c2 = c1\<lparr>undo_stack := [], redo_stack := []\<rparr>;
            c3 = save_state c2 True
        in c3\<lparr>scale_factor := 1\<rparr>)"

section \<open>Floating-point arithmetic\<close>

text \<open>
  Python's \<^verbatim>\<open>float\<close> and Qt's \<^verbatim>\<open>qreal\<close> are IEEE-754 doubles. A double is modelled by
  the real number it stands for, and an arithmetic operation on doubles is the exact
  operation on the reals followed by rounding to a double. The rounding function is
  the parameter \<open>fl\<close> of every definition that computes with doubles: \<^verbatim>\<open>a / b\<close>
  is \<open>fl (a / b)\<close>, the literal \<^verbatim>\<open>0.1\<close> is \<open>fl (1/10)\<close>. Comparisons, \<^verbatim>\<open>abs\<close>,
  \<^verbatim>\<open>min\<close> and \<^verbatim>\<open>max\<close> are exact, and so is the conversion of a Qt \<^verbatim>\<open>int\<close> to a double.

  \<open>standard_model fl\<close> is the usual error bound of round-to-nearest: zero is kept,
  and a number in the range of the normal doubles moves by at most the relative error
  \<open>2\<^sup>-\<^sup>5\<^sup>3\<close>.
\<close>

definition float_min :: real where "float_min = 1 / 2 ^ 1022"
definition float_max :: real where "float_max = 2 ^ 1023"

definition standard_model :: "(real \<Rightarrow> real) \<Rightarrow> bool" where
  "standard_model fl \<longleftrightarrow>
     (\<forall>x. x = 0 \<or> (float_min \<le> \<bar>x\<bar> \<and> \<bar>x\<bar> \<le> float_max) \<longrightarrow> \<bar>fl x - x\<bar> \<le> \<bar>x\<bar> / 2 ^ 53)"

text \<open>The rounding that changes nothing: arithmetic on the reals themselves.\<close>

definition exact :: "real \<Rightarrow> real" where "exact x = x"

text \<open>Python's \<^verbatim>\<open>int(round(x))\<close>: to the nearest integer, a tie to the even one.\<close>

definition py_round :: "real \<Rightarrow> int" where
  "py_round x =
     (let f = \<lfloor>x\<rfloor>; d = x - of_int f
      in if d < 1/2 then f else if d > 1/2 then f + 1 else if even f then f else f + 1)"

text \<open>Qt's \<^verbatim>\<open>qRound\<close>, which \<^verbatim>\<open>QPointF.toPoint()\<close> applies to both coordinates: to the
  nearest integer, a tie away from zero.\<close>

definition qRound :: "real \<Rightarrow> int" where
  "qRound d = (if d \<ge> 0 then \<lfloor>d + 1/2\<rfloor> else \<lceil>d - 1/2\<rceil>)"

definition toPoint :: "real \<times> real \<Rightarrow> int \<times> int" where
  "toPoint p = (qRound (fst p), qRound (snd p))"

text \<open>\<^verbatim>\<open>QPointF(p)\<close> for a \<^verbatim>\<open>QPoint\<close> \<open>p\<close>\<close>

definition QPointF :: "int \<times> int \<Rightarrow> real \<times> real" where
  "QPointF p = (of_int (fst p), of_int (snd p))"

section \<open>Coordinate mapping\<close>

text \<open>\<^verbatim>\<open>Canvas._to_image_coords\<close>: \<^verbatim>\<open>QPointF(widget_pos) / self.scale_factor\<close>, one
  division for each coordinate. The scale factor is never 0: it starts at 1.0 and
  is only ever set to 1.0 or to a value clamped into [0.1, 16].\<close>

definition to_image_coords :: "(real \<Rightarrow> real) \<Rightarrow> canvas \<Rightarrow> real \<times> real \<Rightarrow> real \<times> real" where
  "to_image_coords fl c widget_pos =
     (fl (fst widget_pos / scale_factor c), fl (snd widget_pos / scale_factor c))"

text \<open>\<^verbatim>\<open>Canvas._to_widget_coords\<close>: \<^verbatim>\<open>(image_pos * self.scale_factor).toPoint()\<close>\<close>

definition to_widget_coords :: "(real \<Rightarrow> real) \<Rightarrow> canvas \<Rightarrow> real \<times> real \<Rightarrow> int \<times> int" where
  "to_widget_coords fl c image_pos =
     toPoint (fl (fst image_pos * scale_factor c), fl (snd image_pos * scale_factor c))"

section \<open>Zoom\<close>

text \<open>The first two assignments of \<^verbatim>\<open>Canvas._zoom_at_point\<close>:
  \<^verbatim>\<open>new_scale = old_scale * factor; new_scale = max(0.1, min(new_scale, 16.0))\<close>\<close>

definition zoom_new_scale :: "(real \<Rightarrow> real) \<Rightarrow> real \<Rightarrow> real \<Rightarrow> real" where
  "zoom_new_scale fl old_scale factor = max (fl (1/10)) (min (fl (old_scale * factor)) 16)"

text \<open>
  \<^verbatim>\<open>Canvas._zoom_at_point(widget_point, factor)\<close>; \<open>bars\<close> are the values of the horizontal
  and the vertical scroll bar when the function reads them. A new value outside 32 bits
  makes \<^verbatim>\<open>setValue\<close> raise \<^verbatim>\<open>OverflowError\<close>: the call ends there, after the scale
  factor has been assigned.
\<close>

definition zoom_at_point :: "(real \<Rightarrow> real) \<Rightarrow> canvas \<Rightarrow> int \<times> int \<Rightarrow> int \<times> int \<Rightarrow> real \<Rightarrow> canvas" where
  "zoom_at_point fl c bars widget_point factor =
     (let old_scale = scale_factor c;
          new_scale = zoom_new_scale fl old_scale factor
      in if \<bar>fl (new_scale - old_scale)\<bar> < fl (1/1000) then c
         else
           let image_point = (fl (fst (QPointF widget_point) / old_scale),
                              fl (snd (QPointF widget_point) / old_scale));
               c1 = c\<lparr>scale_factor := new_scale\<rparr>;
               target_widget_pos_f = (fl (fst image_point * new_scale), fl (snd image_point * new_scale));
               delta_f = (fl (fst target_widget_pos_f - fst (QPointF widget_point)),
                          fl (snd target_widget_pos_f - snd (QPointF widget_point)));
               new_h_val = fst bars + py_round (fst delta_f);
               new_v_val = snd bars + py_round (snd delta_f)
           in if \<not> fits_int new_h_val then c1
              else
                let c2 = c1\<lparr>scroll_calls := scroll_calls c1 @ [h_bar_setValue new_h_val]\<rparr>
                in if \<not> fits_int new_v_val then c2
                   else c2\<lparr>scroll_calls := scroll_calls c2 @ [v_bar_setValue new_v_val]\<rparr>)"

section \<open>Tool state\<close>

text \<open>
  \<^verbatim>\<open>str.lower()\<close> is Python's and lowers the cased characters of all of Unicode; it is
  the parameter \<open>lower\<close> of \<open>set_tool\<close>. On a string of ASCII characters it turns the
  letters A to Z into a to z and keeps every other character: that is \<open>ascii_lower\<close>,
  which stands in for it on the tool names of the program, all of them ASCII.
\<close>

definition ascii_lower_char :: "char \<Rightarrow> char" where
  "ascii_lower_char ch =
     (if (65::nat) \<le> of_char ch \<and> of_char ch \<le> (90::nat) then char_of (of_char ch + (32::nat)) else ch)"

definition ascii_lower :: "string \<Rightarrow> string" where
  "ascii_lower s = map ascii_lower_char s"

text \<open>The property \<^verbatim>\<open>Canvas.current_pen_size\<close>\<close>

definition current_pen_size :: "canvas \<Rightarrow> int" where
  "current_pen_size c =
     (if current_tool c = ''brush'' then brush_size c
      else if current_tool c = ''eraser'' then eraser_size c
      else 1)"

text \<open>\<^verbatim>\<open>Canvas.set_tool(tool)\<close>\<close>

definition set_tool :: "(string \<Rightarrow> string) \<Rightarrow> canvas \<Rightarrow> string \<Rightarrow> canvas" where
  "set_tool lower c tool =
     (let new_tool = lower tool
      in if new_tool \<noteq> current_tool c then
           (let c1 = c\<lparr>current_tool := new_tool\<rparr>
            in c1\<lparr>emitted := emitted c1 @ [pen_size_changed (current_pen_size c1)]\<rparr>)
         else c)"

text \<open>\<^verbatim>\<open>Canvas.set_color(color)\<close>\<close>

definition set_color :: "canvas \<Rightarrow> qcolor \<Rightarrow> canvas" where
  "set_color c color =
     (if isValid color then
        (let c1 = c\<lparr>current_color := color\<rparr>
         in c1\<lparr>emitted := emitted c1 @ [color_changed color]\<rparr>)
      else c)"

text \<open>\<^verbatim>\<open>Canvas.set_pen_size(size)\<close>: the function returns the canvas; \<open>changed\<close> only
  decides the repaint request, which is outside the model.\<close>

definition set_pen_size :: "canvas \<Rightarrow> int \<Rightarrow> canvas" where
  "set_pen_size c sz =
     (let new_size = max MIN_PEN_SIZE (min sz MAX_PEN_SIZE)
      in if current_tool c = ''brush'' \<and> brush_size c \<noteq> new_size then c\<lparr>brush_size := new_size\<rparr>
         else if current_tool c = ''eraser'' \<and> eraser_size c \<noteq> new_size then c\<lparr>eraser_size := new_size\<rparr>
         else c)"

text \<open>\<^verbatim>\<open>Canvas.adjust_size(delta)\<close>: \<open>snd\<close> of each pair is the local \<^verbatim>\<open>changed\<close>.\<close>

definition adjust_size :: "canvas \<Rightarrow> int \<Rightarrow> canvas" where
  "adjust_size c delta =
     (let target_size = current_pen_size c + delta;
          new_size = max MIN_PEN_SIZE (min target_size MAX_PEN_SIZE);
          (c1, changed) =
            (if current_tool c = ''brush'' \<and> brush_size c \<noteq> new_size then (c\<lparr>brush_size := new_size\<rparr>, True)
             else if current_tool c = ''eraser'' \<and> eraser_size c \<noteq> new_size then (c\<lparr>eraser_size := new_size\<rparr>, True)
             else (c, False))
      in if changed then c1\<lparr>emitted := emitted c1 @ [pen_size_changed new_size]\<rparr> else c1)"

section \<open>Drawing and the mouse\<close>

text \<open>\<^verbatim>\<open>Canvas.draw_point(image_point)\<close>\<close>

definition draw_point :: "painter \<Rightarrow> canvas \<Rightarrow> real \<times> real \<Rightarrow> canvas" where
  "draw_point qp c image_point =
     (if current_tool c = ''brush'' then
        c\<lparr>image_buf := drawPoint qp CompositionMode_SourceOver (current_color c)
                          (current_pen_size c) image_point (image_buf c)\<rparr>
      else if current_tool c = ''eraser'' then
        c\<lparr>image_buf := drawPoint qp CompositionMode_Clear transparent
                          (current_pen_size c) image_point (image_buf c)\<rparr>
      else c)"

text \<open>\<^verbatim>\<open>Canvas.draw_line_to(end_image_point)\<close>\<close>

definition draw_line_to :: "painter \<Rightarrow> canvas \<Rightarrow> real \<times> real \<Rightarrow> canvas" where
  "draw_line_to qp c end_image_point =
     (if current_tool c = ''brush'' then
        c\<lparr>image_buf := drawLine qp CompositionMode_SourceOver (current_color c)
                          (current_pen_size c) (last_point c) end_image_point (image_buf c),
          last_point := end_image_point\<rparr>
      else if current_tool c = ''eraser'' then
        c\<lparr>image_buf := drawLine qp CompositionMode_Clear transparent
                          (current_pen_size c) (last_point c) end_image_point (image_buf c),
          last_point := end_image_point\<rparr>
      else c)"

text \<open>A mouse event: \<^verbatim>\<open>event.button()\<close>, \<^verbatim>\<open>event.buttons()\<close> and \<^verbatim>\<open>event.position()\<close>.\<close>

datatype mouse_button = NoButton | LeftButton | RightButton | OtherButton

record mouse_event =
  button :: mouse_button
  buttons :: "mouse_button set"
  position :: "real \<times> real"

text \<open>\<^verbatim>\<open>Canvas.mousePressEvent(event)\<close>\<close>

definition mousePressEvent :: "(real \<Rightarrow> real) \<Rightarrow> painter \<Rightarrow> canvas \<Rightarrow> mouse_event \<Rightarrow> canvas" where
  "mousePressEvent fl qp c event =
     (if button event = RightButton then
        c\<lparr>panning := True, pan_start_pos := toPoint (position event)\<rparr>
      else if button event = LeftButton then
        (let image_pos_f = to_image_coords fl c (position event);
             image_pos_i = toPoint image_pos_f
         in if current_tool c = ''bucket'' then
              (let c1 = flood_fill c image_pos_i False;
                   c2 = c1\<lparr>current_stroke_saved := True\<rparr>
               in save_state c2 False)
            else
              (let c1 = c\<lparr>drawing := True, last_point := image_pos_f\<rparr>;
                   c2 = draw_point qp c1 image_pos_f;
                   c3 = c2\<lparr>current_stroke_saved := True\<rparr>
               in save_state c3 False))
      else c)"

text \<open>\<^verbatim>\<open>Canvas.mouseMoveEvent(event)\<close>; \<open>bars\<close> are the values of the two scroll bars
  when the panning branch reads them, and a new value outside 32 bits ends the call
  there, as in \<open>zoom_at_point\<close>.\<close>

definition mouseMoveEvent :: "(real \<Rightarrow> real) \<Rightarrow> painter \<Rightarrow> canvas \<Rightarrow> int \<times> int \<Rightarrow> mouse_event \<Rightarrow> canvas" where
  "mouseMoveEvent fl qp c bars event =
     (let current_pos = toPoint (position event);
          c1 = c\<lparr>cursor_pos := current_pos\<rparr>
      in if panning c1 then
           (let delta = (fst current_pos - fst (pan_start_pos c1), snd current_pos - snd (pan_start_pos c1));
                new_h_val = fst bars - fst delta;
                new_v_val = snd bars - snd delta
            in if \<not> fits_int new_h_val then c1
               else
                 let c2 = c1\<lparr>scroll_calls := scroll_calls c1 @ [h_bar_setValue new_h_val]\<rparr>
                 in if \<not> fits_int new_v_val then c2
                    else c2\<lparr>scroll_calls := scroll_calls c2 @ [v_bar_setValue new_v_val],
                            pan_start_pos := current_pos\<rparr>)
         else if LeftButton \<in> buttons event \<and> drawing c1 then
           (if current_tool c1 = ''brush'' \<or> current_tool c1 = ''eraser''
            then draw_line_to qp c1 (to_image_coords fl c1 (QPointF current_pos))
            else c1)
         else c1)"

text \<open>\<^verbatim>\<open>Canvas.mouseReleaseEvent(event)\<close>\<close>

definition mouseReleaseEvent :: "canvas \<Rightarrow> mouse_event \<Rightarrow> canvas" where
  "mouseReleaseEvent c event =
     (if button event = RightButton \<and> panning c then c\<lparr>panning := False\<rparr>
      else
        let c1 = c\<lparr>cursor_pos := toPoint (position event)\<rparr>
        in if button event = LeftButton \<and> drawing c1 then c1\<lparr>drawing := False\<rparr> else c1)"

section \<open>Notions of the specification\<close>

text \<open>
  The region a fill is to repaint: the pixels of the image reachable from the seed
  by steps to one of the four neighbours (right, left, down, up), every pixel on the way
  inside the image and of the colour the seed has in \<open>img\<close>.
\<close>

inductive_set fill_region :: "qimage \<Rightarrow> int \<times> int \<Rightarrow> (int \<times> int) set"
  for img :: qimage and seed :: "int \<times> int" where
  seed: "rect_contains img seed \<Longrightarrow> seed \<in> fill_region img seed"
| step: "p \<in> fill_region img seed \<Longrightarrow> q \<in> set (neighbors p) \<Longrightarrow> rect_contains img q
         \<Longrightarrow> pixelColor img q = pixelColor img seed \<Longrightarrow> q \<in> fill_region img seed"


text \<open>The invariant of the traversal loop, for the original image \<open>img0\<close> and the
  set \<open>D\<close> of pixels repainted so far.\<close>

definition fill_inv :: "qimage \<Rightarrow> int \<times> int \<Rightarrow> qcolor \<Rightarrow> (int \<times> int) set \<Rightarrow> fill_state \<Rightarrow> bool" where
  "fill_inv img0 seed fc D s =
     (case s of (img, queue, processed) \<Rightarrow>
        img_width img = img_width img0 \<and> img_height img = img_height img0
      \<and> D \<subseteq> fill_region img0 seed
      \<and> img_pixels img = (\<lambda>p. if p \<in> D then fc else img_pixels img0 p)
      \<and> (\<forall>q\<in>D. set (neighbors q) \<subseteq> processed)
      \<and> (\<forall>p\<in>processed. p = seed \<or> (\<exists>q\<in>D. p \<in> set (neighbors q)))
      \<and> (\<forall>p\<in>processed - set queue.
            p \<in> D \<or> \<not> rect_contains img0 p \<or> pixelColor img0 p \<noteq> pixelColor img0 seed)
      \<and> set queue \<subseteq> processed \<and> seed \<in> processed)"


text \<open>The scenario of the specification: a black 10 x 10 square at the origin of a white
  800 x 600 image, the bucket tool with red as the current colour.\<close>

definition square_image :: qimage where
  "square_image =
     \<lparr>img_width = DEFAULT_WIDTH, img_height = DEFAULT_HEIGHT,
      img_pixels = (\<lambda>p. if 0 \<le> fst p \<and> fst p < 10 \<and> 0 \<le> snd p \<and> snd p < 10 then black
                        else if 0 \<le> fst p \<and> fst p < DEFAULT_WIDTH \<and> 0 \<le> snd p \<and> snd p < DEFAULT_HEIGHT then white
                        else Invalid)\<rparr>"

definition square_canvas :: canvas where
  "square_canvas = Canvas_init\<lparr>current_tool := ''bucket'', current_color := red, image_buf := square_image\<rparr>"


text \<open>
  Modelled from the spec: the rasteriser behind \<^verbatim>\<open>QPainter.drawPoint\<close> and
  \<^verbatim>\<open>QPainter.drawLine\<close> is Qt's and not part of the repository. The specification has
  \<open>drawPoint\<close> paint a filled circular dab of diameter \<open>penSize\<close> centred at the point
  and \<open>drawLineSegment\<close> paint a round-capped line of width \<open>penSize\<close> between the two
  points; the brush composites the colour over the content (source-over), the eraser
  clears to transparent. A pixel is painted when its centre lies in the shape. The
  specification has a resize copy a rectangle of the old buffer: \<open>drawImage\<close> writes the
  pixels of the source rectangle over those of the target rectangle, which has the same
  size wherever the program calls it. This painter stands in for Qt's wherever a scenario
  is evaluated.
\<close>

definition source_over :: "qcolor \<Rightarrow> qcolor \<Rightarrow> qcolor" where
  "source_over src dst =
     (case src of Invalid \<Rightarrow> dst
      | RGBA r g b a \<Rightarrow>
         (case dst of Invalid \<Rightarrow> src
          | RGBA r' g' b' a' \<Rightarrow>
             let out_a = unat a + unat a' * (255 - unat a) div 255;
                 ch = (\<lambda>c c'. if out_a = 0 then 0
                                else (unat c * unat a * 255 + unat c' * unat a' * (255 - unat a))
                                       div (out_a * 255))
             in RGBA (of_nat (ch r r')) (of_nat (ch g g')) (of_nat (ch b b')) (of_nat out_a)))"

definition composite :: "composition_mode \<Rightarrow> qcolor \<Rightarrow> qcolor \<Rightarrow> qcolor" where
  "composite mode src dst =
     (case mode of CompositionMode_Clear \<Rightarrow> transparent
      | CompositionMode_SourceOver \<Rightarrow> source_over src dst)"

definition in_dab :: "int \<Rightarrow> real \<times> real \<Rightarrow> int \<times> int \<Rightarrow> bool" where
  "in_dab width centre p =
     ((of_int (fst p) + 1/2 - fst centre)\<^sup>2 + (of_int (snd p) + 1/2 - snd centre)\<^sup>2
        \<le> (of_int width / 2)\<^sup>2)"

definition in_capsule :: "int \<Rightarrow> real \<times> real \<Rightarrow> real \<times> real \<Rightarrow> int \<times> int \<Rightarrow> bool" where
  "in_capsule width a b p =
     (let dx = fst b - fst a; dy = snd b - snd a; len2 = dx * dx + dy * dy;
          cx = of_int (fst p) + 1/2; cy = of_int (snd p) + 1/2
      in if len2 = 0 then in_dab width a p
         else
           let t = max 0 (min 1 (((cx - fst a) * dx + (cy - snd a) * dy) / len2));
               nx = fst a + t * dx; ny = snd a + t * dy
           in (cx - nx)\<^sup>2 + (cy - ny)\<^sup>2 \<le> (of_int width / 2)\<^sup>2)"

definition in_rect :: "qrect \<Rightarrow> int \<times> int \<Rightarrow> bool" where
  "in_rect r p =
     (fst (fst r) \<le> fst p \<and> fst p < fst (fst r) + fst (snd r)
      \<and> snd (fst r) \<le> snd p \<and> snd p < snd (fst r) + snd (snd r))"

definition spec_painter :: painter where
  "spec_painter =
     \<lparr>drawPoint = (\<lambda>mode colour width point img.
         img\<lparr>img_pixels := (\<lambda>p. if rect_contains img p \<and> in_dab width point p
                                  then composite mode colour (img_pixels img p)
                                  else img_pixels img p)\<rparr>),
      drawLine = (\<lambda>mode colour width a b img.
         img\<lparr>img_pixels := (\<lambda>p. if rect_contains img p \<and> in_capsule width a b p
                                  then composite mode colour (img_pixels img p)
                                  else img_pixels img p)\<rparr>),
      drawImage = (\<lambda>target_rect source source_rect img.
         img\<lparr>img_pixels :=
           (\<lambda>p. let q = (fst p - fst (fst target_rect) + fst (fst source_rect),
                          snd p - snd (fst target_rect) + snd (fst source_rect))
                 in if rect_contains img p \<and> in_rect target_rect p
                       \<and> in_rect source_rect q \<and> rect_contains source q
                    then img_pixels source q else img_pixels img p)\<rparr>)\<rparr>"

text \<open>The canvas as the entry point leaves it: \<^verbatim>\<open>MainWindow()\<close>, then
  \<^verbatim>\<open>main_window.set_up_canvas()\<close>.\<close>

definition fresh_canvas :: canvas where
  "fresh_canvas = set_up_canvas Canvas_init"

text \<open>The three events of a stroke with the left button, and the stroke from \<open>a\<close> to
  \<open>b\<close>: press at \<open>a\<close>, move to \<open>b\<close>, release at \<open>b\<close>, with both scroll bars at 0.\<close>

definition press_at :: "real \<times> real \<Rightarrow> mouse_event" where
  "press_at p = \<lparr>button = LeftButton, buttons = {LeftButton}, position = p\<rparr>"

definition move_to :: "real \<times> real \<Rightarrow> mouse_event" where
  "move_to p = \<lparr>button = NoButton, buttons = {LeftButton}, position = p\<rparr>"

definition release_at :: "real \<times> real \<Rightarrow> mouse_event" where
  "release_at p = \<lparr>button = LeftButton, buttons = {}, position = p\<rparr>"

definition stroke :: "(real \<Rightarrow> real) \<Rightarrow> painter \<Rightarrow> canvas \<Rightarrow> real \<times> real \<Rightarrow> real \<times> real \<Rightarrow> canvas" where
  "stroke fl qp c a b =
     mouseReleaseEvent
       (mouseMoveEvent fl qp (mousePressEvent fl qp c (press_at a)) (0, 0) (move_to b))
       (release_at b)"

text \<open>The actions that capture the history before they change the buffer, and a
  sequence of them applied in order, with the painter \<open>qp\<close>.\<close>

datatype edit = Clear | Resize int int

fun apply_edit :: "painter \<Rightarrow> canvas \<Rightarrow> edit \<Rightarrow> canvas" where
  "apply_edit qp c Clear = clear_canvas c"
| "apply_edit qp c (Resize w h) = resize_canvas qp c w h"

text \<open>A canvas whose whole image already has the current colour, with the bucket tool:
  a 2 x 2 black image loaded into the initial canvas (whose colour is black).\<close>

definition bucket_canvas :: canvas where
  "bucket_canvas = set_tool ascii_lower (load_image Canvas_init (filled_image (2, 2) black)) ''Bucket''"

text \<open>\<open>clamp lo hi x\<close> of the specification.\<close>

definition clamp :: "real \<Rightarrow> real \<Rightarrow> real \<Rightarrow> real" where
  "clamp lo hi x = (if x < lo then lo else if x > hi then hi else x)"

text \<open>The history as \<open>undo\<close> needs it to lead back to the baseline snapshot \<open>b\<close>: the
  stack is the baseline alone and the live buffer equals it, or the stack starts with the
  baseline followed by the buffer captured before the first edit, which is the baseline
  again.\<close>

definition hist_ok :: "snapshot \<Rightarrow> canvas \<Rightarrow> bool" where
  "hist_ok b c \<longleftrightarrow>
     (undo_stack c = [b] \<and> (image_buf c, image_size c) = b) \<or> (\<exists>rest. undo_stack c = b # b # rest)"

text \<open>Fifty resizes, to 1 x 1, 2 x 2, ..., 50 x 50.\<close>

definition fifty_resizes :: "edit list" where
  "fifty_resizes = map (\<lambda>n. Resize n n) [1..50]"

text \<open>The sizes in a history: what the undo stack and the live buffer hold, images
  left out; and the three history operations on that view. A resize to a size outside
  32 bits changes nothing.\<close>

type_synonym size_view = "(int \<times> int) list \<times> (int \<times> int)"

definition view :: "canvas \<Rightarrow> size_view" where
  "view c = (map snd (undo_stack c), image_size c)"

fun edit_view :: "size_view \<Rightarrow> edit \<Rightarrow> size_view" where
  "edit_view (st, sz) Clear = (deque_append st sz, sz)"
| "edit_view (st, sz) (Resize w h) =
     (if \<not> (fits_int w \<and> fits_int h) \<or> (w, h) = sz then (st, sz) else (deque_append st sz, (w, h)))"

fun undo_view :: "size_view \<Rightarrow> size_view" where
  "undo_view (st, sz) = (if length st > 1 then (butlast st, last st) else (st, sz))"

section \<open>Flood fill: correctness and termination\<close>


lemma fill_region_contains: "p \<in> fill_region img seed \<Longrightarrow> rect_contains img p"
  by (induction rule: fill_region.induct) auto

lemma fill_region_color: "p \<in> fill_region img seed \<Longrightarrow> pixelColor img p = pixelColor img seed"
  by (induction rule: fill_region.induct) auto

lemma snd_foldl_enqueue: "snd (foldl enqueue qp ns) = snd qp \<union> set ns"
  by (induction ns arbitrary: qp) (auto simp: enqueue_def)

lemma set_fst_foldl_enqueue: "set (fst (foldl enqueue qp ns)) = set (fst qp) \<union> (set ns - snd qp)"
  by (induction ns arbitrary: qp) (auto simp: enqueue_def)

lemma fill_inv_init:
  "fill_inv img0 seed fc {} (img0, [seed], {seed})"
  by (simp add: fill_inv_def)

lemma fill_inv_visit:
  assumes inv: "fill_inv img0 seed fc D (img, p # queue, processed)"
    and ne: "fc \<noteq> pixelColor img0 seed" and valid: "isValid fc"
  shows "\<exists>D'. fill_inv img0 seed fc D'
           (flood_visit (img_width img0) (img_height img0) (pixelColor img0 seed) fc p (img, queue, processed))"
proof -
  let ?tc = "pixelColor img0 seed"
  from inv have w: "img_width img = img_width img0" and h: "img_height img = img_height img0"
    and sub: "D \<subseteq> fill_region img0 seed"
    and px: "img_pixels img = (\<lambda>p. if p \<in> D then fc else img_pixels img0 p)"
    and nb: "\<forall>q\<in>D. set (neighbors q) \<subseteq> processed"
    and src: "\<forall>p\<in>processed. p = seed \<or> (\<exists>q\<in>D. p \<in> set (neighbors q))"
    and dn: "\<forall>x\<in>processed - set (p # queue).
            x \<in> D \<or> \<not> rect_contains img0 x \<or> pixelColor img0 x \<noteq> ?tc"
    and qs: "set (p # queue) \<subseteq> processed" and sd: "seed \<in> processed"
    by (auto simp: fill_inv_def)
  have rc: "rect_contains img x = rect_contains img0 x" for x
    by (simp add: rect_contains_def w h)
  show ?thesis
  proof (cases "rect_contains img0 p \<and> pixelColor img p = ?tc")
    case False
    then have skip: "flood_visit (img_width img0) (img_height img0) ?tc fc p (img, queue, processed)
                     = (img, queue, processed)"
      by (auto simp: flood_visit_def rect_contains_def)
    have pdone: "p \<in> D \<or> \<not> rect_contains img0 p \<or> pixelColor img0 p \<noteq> ?tc"
      using False px by (auto simp: pixelColor_def rc)
    have "fill_inv img0 seed fc D (img, queue, processed)"
      unfolding fill_inv_def using w h sub px nb src dn qs sd pdone by auto
    with skip show ?thesis by auto
  next
    case True
    then have inb: "rect_contains img0 p" and col: "pixelColor img p = ?tc" by auto
    have pD: "p \<notin> D" using col px ne inb by (auto simp: pixelColor_def rc)
    have orig: "pixelColor img0 p = ?tc" using col px pD inb by (auto simp: pixelColor_def rc)
    have pproc: "p \<in> processed" using qs by simp
    have preg: "p \<in> fill_region img0 seed"
    proof -
      from src pproc consider "p = seed" | q where "q \<in> D" "p \<in> set (neighbors q)" by blast
      then show ?thesis
      proof cases
        case 1
        with inb show ?thesis by (simp add: fill_region.seed)
      next
        case 2
        with sub have "q \<in> fill_region img0 seed" by blast
        from fill_region.step [OF this 2(2) inb orig] show ?thesis .
      qed
    qed
    obtain q' pr' where f: "foldl enqueue (queue, processed) (neighbors p) = (q', pr')"
      by (cases "foldl enqueue (queue, processed) (neighbors p)")
    have pr': "pr' = processed \<union> set (neighbors p)"
      using snd_foldl_enqueue [of "(queue, processed)" "neighbors p"] f by simp
    have q': "set q' = set queue \<union> (set (neighbors p) - processed)"
      using set_fst_foldl_enqueue [of "(queue, processed)" "neighbors p"] f by simp
    have vis: "flood_visit (img_width img0) (img_height img0) ?tc fc p (img, queue, processed)
               = (setPixelColor img p fc, q', pr')"
      using inb col f by (simp add: flood_visit_def rect_contains_def)
    have sp: "setPixelColor img p fc = img\<lparr>img_pixels := (img_pixels img)(p := fc)\<rparr>"
      using inb valid by (simp add: setPixelColor_def rc)
    have px': "img_pixels (setPixelColor img p fc) = (\<lambda>x. if x \<in> insert p D then fc else img_pixels img0 x)"
      by (auto simp: sp px)
    have "fill_inv img0 seed fc (insert p D) (setPixelColor img p fc, q', pr')"
      unfolding fill_inv_def
    proof (simp only: prod.case, intro conjI)
      show "img_width (setPixelColor img p fc) = img_width img0" by (simp add: sp w)
      show "img_height (setPixelColor img p fc) = img_height img0" by (simp add: sp h)
      show "insert p D \<subseteq> fill_region img0 seed" using sub preg by simp
      show "img_pixels (setPixelColor img p fc) = (\<lambda>x. if x \<in> insert p D then fc else img_pixels img0 x)"
        by (rule px')
      show "\<forall>q\<in>insert p D. set (neighbors q) \<subseteq> pr'" using nb pr' by auto
      show "\<forall>x\<in>pr'. x = seed \<or> (\<exists>q\<in>insert p D. x \<in> set (neighbors q))"
        using src pr' by auto
      show "\<forall>x\<in>pr' - set q'. x \<in> insert p D \<or> \<not> rect_contains img0 x \<or> pixelColor img0 x \<noteq> ?tc"
        using dn pr' q' by auto
      show "set q' \<subseteq> pr'" using qs pr' q' by auto
      show "seed \<in> pr'" using sd pr' by simp
    qed
    with vis show ?thesis by auto
  qed
qed

lemma fill_inv_final:
  assumes inv: "fill_inv img0 seed fc D (img, [], processed)"
    and inb: "rect_contains img0 seed"
  shows "img = img0\<lparr>img_pixels := (\<lambda>p. if p \<in> fill_region img0 seed then fc else img_pixels img0 p)\<rparr>"
proof -
  from inv have w: "img_width img = img_width img0" and h: "img_height img = img_height img0"
    and sub: "D \<subseteq> fill_region img0 seed"
    and px: "img_pixels img = (\<lambda>p. if p \<in> D then fc else img_pixels img0 p)"
    and nb: "\<forall>q\<in>D. set (neighbors q) \<subseteq> processed"
    and dn: "\<forall>x\<in>processed.
            x \<in> D \<or> \<not> rect_contains img0 x \<or> pixelColor img0 x \<noteq> pixelColor img0 seed"
    and sd: "seed \<in> processed"
    by (auto simp: fill_inv_def)
  have "x \<in> D" if "x \<in> fill_region img0 seed" for x
    using that
  proof (induction rule: fill_region.induct)
    case seed
    then show ?case using dn sd by auto
  next
    case (step p q)
    then have "q \<in> processed" using nb by auto
    with step dn show ?case by auto
  qed
  with sub have "D = fill_region img0 seed" by auto
  with px w h show ?thesis by simp
qed

lemma flood_loop_inv:
  "fill_inv img0 seed fc D s \<Longrightarrow> w = img_width img0 \<Longrightarrow> h = img_height img0
   \<Longrightarrow> tc = pixelColor img0 seed \<Longrightarrow> fc \<noteq> pixelColor img0 seed \<Longrightarrow> isValid fc
   \<Longrightarrow> rect_contains img0 seed \<Longrightarrow>
     fst (flood_loop w h tc fc s)
       = img0\<lparr>img_pixels := (\<lambda>p. if p \<in> fill_region img0 seed then fc else img_pixels img0 p)\<rparr>"
proof (induction w h tc fc s arbitrary: D rule: flood_loop.induct)
  case (1 w h tc fc img processed)
  then show ?case using fill_inv_final by simp
next
  case (2 w h tc fc img p queue processed)
  have "\<exists>D'. fill_inv img0 seed fc D'
           (flood_visit (img_width img0) (img_height img0) (pixelColor img0 seed) fc p (img, queue, processed))"
    using "2.prems"(1,5,6) by (rule fill_inv_visit)
  then obtain D' where "fill_inv img0 seed fc D' (flood_visit w h tc fc p (img, queue, processed))"
    using "2.prems" by auto
  then show ?case using "2.IH" "2.prems" by simp
qed

text \<open>
  C3. For a seed inside the image and a valid fill colour (the current colour, or
  \<^verbatim>\<open>QColor(0, 0, 0, 0)\<close> in erase mode), \<open>flood_fill\<close> changes the canvas in one way
  only: every pixel of the region reachable from the seed through pixels of the seed's
  original colour has the fill colour, and every other pixel keeps its colour.
\<close>

theorem flood_fill_repaints_region:
  assumes "rect_contains (image_buf c) seed"
    and "fill = (if erase_mode then RGBA 0 0 0 0 else current_color c)"
    and "isValid fill"
  shows "flood_fill c seed erase_mode =
         c\<lparr>image_buf := (image_buf c)\<lparr>img_pixels :=
             (\<lambda>p. if p \<in> fill_region (image_buf c) seed then fill
                  else img_pixels (image_buf c) p)\<rparr>\<rparr>"
proof (cases "pixelColor (image_buf c) seed = fill")
  case True
  have "(\<lambda>p. if p \<in> fill_region (image_buf c) seed then fill else img_pixels (image_buf c) p)
        = img_pixels (image_buf c)"
  proof
    fix p
    show "(if p \<in> fill_region (image_buf c) seed then fill else img_pixels (image_buf c) p)
          = img_pixels (image_buf c) p"
    proof (cases "p \<in> fill_region (image_buf c) seed")
      case in_region: True
      from fill_region_color [OF in_region] fill_region_contains [OF in_region] True
      show ?thesis by (simp add: pixelColor_def)
    next
      case False
      then show ?thesis by simp
    qed
  qed
  moreover have "flood_fill c seed erase_mode = c"
    using assms(1,2) True by (simp add: flood_fill_def Let_def)
  ultimately show ?thesis by simp
next
  case False
  have "fst (flood_loop (img_width (image_buf c)) (img_height (image_buf c))
               (pixelColor (image_buf c) seed) fill (image_buf c, [seed], {seed}))
        = (image_buf c)\<lparr>img_pixels :=
             (\<lambda>p. if p \<in> fill_region (image_buf c) seed then fill else img_pixels (image_buf c) p)\<rparr>"
    using fill_inv_init False assms(3,1)
    by (intro flood_loop_inv [where D = "{}"]) auto
  then show ?thesis
    using assms(1,2) False by (auto simp: flood_fill_def Let_def)
qed

lemma square_good:
  "rect_contains square_image p \<and> pixelColor square_image p = pixelColor square_image (5, 5)
   \<longleftrightarrow> 0 \<le> fst p \<and> fst p \<le> 9 \<and> 0 \<le> snd p \<and> snd p \<le> 9"
  by (auto simp: square_image_def rect_contains_def pixelColor_def DEFAULT_WIDTH_def DEFAULT_HEIGHT_def
        black_def white_def)

lemma square_region: "fill_region square_image (5, 5) = {0..9} \<times> {0..9}"
proof (rule set_eqI)
  fix p :: "int \<times> int"
  let ?R = "fill_region square_image (5, 5)"
  have seed: "(5, 5) \<in> ?R"
    by (rule fill_region.seed) (simp add: square_image_def rect_contains_def DEFAULT_WIDTH_def DEFAULT_HEIGHT_def)
  have stepR: "q \<in> ?R" if "p' \<in> ?R" "q \<in> set (neighbors p')"
      "0 \<le> fst q" "fst q \<le> 9" "0 \<le> snd q" "snd q \<le> 9" for p' q
    using fill_region.step [OF that(1,2)] square_good [of q] that(3-6) by simp
  have right: "x \<le> 9 \<longrightarrow> (x, 5) \<in> ?R" if "5 \<le> x" for x
    using that
  proof (induction x rule: int_ge_induct)
    case base
    then show ?case using seed by simp
  next
    case (step i)
    show ?case
    proof
      assume "i + 1 \<le> 9"
      with step have "(i, 5) \<in> ?R" by simp
      from stepR [OF this, of "(i + 1, 5)"] step \<open>i + 1 \<le> 9\<close> show "(i + 1, 5) \<in> ?R"
        by (simp add: neighbors_def)
    qed
  qed
  have left: "0 \<le> x \<longrightarrow> (x, 5) \<in> ?R" if "x \<le> 5" for x
    using that
  proof (induction x rule: int_le_induct)
    case base
    then show ?case using seed by simp
  next
    case (step i)
    show ?case
    proof
      assume "0 \<le> i - 1"
      with step have "(i, 5) \<in> ?R" by simp
      from stepR [OF this, of "(i - 1, 5)"] step \<open>0 \<le> i - 1\<close> show "(i - 1, 5) \<in> ?R"
        by (simp add: neighbors_def)
    qed
  qed
  have row: "(x, 5) \<in> ?R" if "0 \<le> x" "x \<le> 9" for x
    using that left [of x] right [of x] by (cases "x \<le> 5") auto
  have down: "y \<le> 9 \<longrightarrow> (x, y) \<in> ?R" if "5 \<le> y" "0 \<le> x" "x \<le> 9" for x y
    using that
  proof (induction y rule: int_ge_induct)
    case base
    then show ?case using row by simp
  next
    case (step i)
    show ?case
    proof
      assume "i + 1 \<le> 9"
      with step have "(x, i) \<in> ?R" by simp
      from stepR [OF this, of "(x, i + 1)"] step \<open>i + 1 \<le> 9\<close> show "(x, i + 1) \<in> ?R"
        by (simp add: neighbors_def)
    qed
  qed
  have up: "0 \<le> y \<longrightarrow> (x, y) \<in> ?R" if "y \<le> 5" "0 \<le> x" "x \<le> 9" for x y
    using that
  proof (induction y rule: int_le_induct)
    case base
    then show ?case using row by simp
  next
    case (step i)
    show ?case
    proof
      assume "0 \<le> i - 1"
      with step have "(x, i) \<in> ?R" by simp
      from stepR [OF this, of "(x, i - 1)"] step \<open>0 \<le> i - 1\<close> show "(x, i - 1) \<in> ?R"
        by (simp add: neighbors_def)
    qed
  qed
  have all: "(x, y) \<in> ?R" if "0 \<le> x" "x \<le> 9" "0 \<le> y" "y \<le> 9" for x y
    using that up [of y x] down [of y x] by (cases "y \<le> 5") auto
  have only: "0 \<le> fst q \<and> fst q \<le> 9 \<and> 0 \<le> snd q \<and> snd q \<le> 9" if "q \<in> ?R" for q
    using fill_region_contains [OF that] fill_region_color [OF that] square_good [of q] by simp
  show "p \<in> ?R \<longleftrightarrow> p \<in> {0..9} \<times> {0..9}"
    using all [of "fst p" "snd p"] only [of p] by (cases p) auto
qed

text \<open>The scenario: filling at (5, 5) turns exactly the 100 pixels of the black square
  red and leaves every white pixel as it is.\<close>

theorem flood_fill_repaints_region_witness:
  "flood_fill square_canvas (5, 5) False =
     square_canvas\<lparr>image_buf := square_image\<lparr>img_pixels :=
        (\<lambda>p. if p \<in> {0..9} \<times> {0..9} then red else img_pixels square_image p)\<rparr>\<rparr>
   \<and> card ({0..9::int} \<times> {0..9::int}) = 100"
proof -
  have c: "rect_contains (image_buf square_canvas) (5, 5)"
    by (simp add: square_canvas_def square_image_def rect_contains_def DEFAULT_WIDTH_def DEFAULT_HEIGHT_def)
  have f: "red = (if False then RGBA 0 0 0 0 else current_color square_canvas)"
    by (simp add: square_canvas_def)
  have v: "isValid red" by (simp add: isValid_def red_def)
  have i: "image_buf square_canvas = square_image" by (simp add: square_canvas_def)
  have "flood_fill square_canvas (5, 5) False =
     square_canvas\<lparr>image_buf := square_image\<lparr>img_pixels :=
        (\<lambda>p. if p \<in> {0..9} \<times> {0..9} then red else img_pixels square_image p)\<rparr>\<rparr>"
    using flood_fill_repaints_region [OF c f v] unfolding i square_region .
  moreover have "card ({0..9::int} \<times> {0..9::int}) = 100" by simp
  ultimately show ?thesis by simp
qed

lemma enqueue_distinct:
  "distinct (fst qp) \<Longrightarrow> set (fst qp) \<subseteq> snd qp
   \<Longrightarrow> distinct (fst (enqueue qp n)) \<and> set (fst (enqueue qp n)) \<subseteq> snd (enqueue qp n)"
  by (auto simp: enqueue_def)

lemma foldl_enqueue_distinct:
  "distinct (fst qp) \<Longrightarrow> set (fst qp) \<subseteq> snd qp
   \<Longrightarrow> distinct (fst (foldl enqueue qp ns)) \<and> set (fst (foldl enqueue qp ns)) \<subseteq> snd (foldl enqueue qp ns)"
proof (induction ns arbitrary: qp)
  case Nil
  then show ?case by simp
next
  case (Cons n ns)
  from enqueue_distinct [OF Cons.prems] Cons.IH [of "enqueue qp n"]
  show ?case by simp
qed

text \<open>What one pass does to the queue and the set, whatever it does to the image.\<close>

lemma flood_visit_queue:
  assumes "flood_visit w h tc fc p (img, queue, processed) = (img', queue', processed')"
    and "distinct queue" and "set queue \<subseteq> processed"
  shows "distinct queue' \<and> set queue' \<subseteq> processed' \<and> processed \<subseteq> processed'
         \<and> set queue' - set queue = processed' - processed \<and> set queue \<subseteq> set queue'
         \<and> (set queue \<subseteq> border_rect w h \<longrightarrow> set queue' \<subseteq> border_rect w h)"
proof (cases "0 \<le> fst p \<and> fst p < w \<and> 0 \<le> snd p \<and> snd p < h \<and> pixelColor img p = tc")
  case False
  then have "flood_visit w h tc fc p (img, queue, processed) = (img, queue, processed)"
    by (auto simp: flood_visit_def)
  with assms show ?thesis by simp
next
  case True
  obtain q' pr' where f: "foldl enqueue (queue, processed) (neighbors p) = (q', pr')"
    by (cases "foldl enqueue (queue, processed) (neighbors p)")
  with True assms(1) have eq: "queue' = q'" "processed' = pr'"
    by (auto simp: flood_visit_def)
  have "distinct q' \<and> set q' \<subseteq> pr'"
    using foldl_enqueue_distinct [of "(queue, processed)" "neighbors p"] assms(2,3) f by simp
  moreover have "pr' = processed \<union> set (neighbors p)"
    using snd_foldl_enqueue [of "(queue, processed)" "neighbors p"] f by simp
  moreover have "set q' = set queue \<union> (set (neighbors p) - processed)"
    using set_fst_foldl_enqueue [of "(queue, processed)" "neighbors p"] f by simp
  moreover have "set (neighbors p) \<subseteq> border_rect w h"
    using True by (simp add: neighbors_in_border)
  ultimately show ?thesis using eq assms(3) by auto
qed

lemma flood_pops_distinct:
  "distinct queue \<Longrightarrow> set queue \<subseteq> processed \<Longrightarrow>
   distinct (flood_pops w h tc fc (img, queue, processed))
   \<and> set (flood_pops w h tc fc (img, queue, processed)) \<inter> (processed - set queue) = {}"
proof (induction w h tc fc "(img, queue, processed)" arbitrary: img queue processed rule: flood_pops.induct)
  case (1 w h tc fc img processed)
  then show ?case by simp
next
  case (2 w h tc fc img p queue processed)
  obtain img' queue' processed' where
    v: "flood_visit w h tc fc p (img, queue, processed) = (img', queue', processed')"
    by (cases "flood_visit w h tc fc p (img, queue, processed)")
  from "2.prems" have dq: "distinct queue" and sq: "set queue \<subseteq> processed"
    and pq: "p \<notin> set queue" and pp: "p \<in> processed" by auto
  from flood_visit_queue [OF v dq sq]
  have d': "distinct queue'" and s': "set queue' \<subseteq> processed'" and mono: "processed \<subseteq> processed'"
    and new: "set queue' - set queue = processed' - processed" by auto
  from "2.hyps" [OF v d' s'] v
  have ih: "distinct (flood_pops w h tc fc (img', queue', processed'))"
    "set (flood_pops w h tc fc (img', queue', processed')) \<inter> (processed' - set queue') = {}"
    by auto
  have keep: "x \<in> processed' - set queue'" if "x \<in> processed" "x \<notin> set queue" for x
    using that mono new by auto
  have "p \<notin> set (flood_pops w h tc fc (img', queue', processed'))"
    using keep [OF pp pq] ih(2) by auto
  moreover have "set (flood_pops w h tc fc (img', queue', processed')) \<inter> (processed - set (p # queue)) = {}"
    using keep ih(2) by auto
  ultimately show ?case using ih(1) v by auto
qed

lemma flood_pops_length:
  "length (flood_pops w h tc fc s) \<le> fill_potential w h s"
proof (induction w h tc fc s rule: flood_pops.induct)
  case (1 w h tc fc img processed)
  then show ?case by simp
next
  case (2 w h tc fc img p queue processed)
  have "fill_potential w h (img, p # queue, processed)
        = Suc (fill_potential w h (flood_visit w h tc fc p (img, queue, processed)))"
    by (simp add: flood_visit_potential) (simp add: fill_potential_def)
  with 2 show ?case by simp
qed


lemma flood_pops_queue:
  "distinct queue \<Longrightarrow> set queue \<subseteq> processed \<Longrightarrow>
   set queue \<subseteq> set (flood_pops w h tc fc (img, queue, processed))"
proof (induction w h tc fc "(img, queue, processed)" arbitrary: img queue processed rule: flood_pops.induct)
  case (1 w h tc fc img processed)
  then show ?case by simp
next
  case (2 w h tc fc img p queue processed)
  obtain img' queue' processed' where
    v: "flood_visit w h tc fc p (img, queue, processed) = (img', queue', processed')"
    by (cases "flood_visit w h tc fc p (img, queue, processed)")
  from "2.prems" have dq: "distinct queue" and sq: "set queue \<subseteq> processed" by auto
  from flood_visit_queue [OF v dq sq]
  have d': "distinct queue'" and s': "set queue' \<subseteq> processed'" and sub: "set queue \<subseteq> set queue'"
    by auto
  from "2.hyps" [OF v d' s'] sub v show ?case by auto
qed

lemma flood_pops_border:
  "distinct queue \<Longrightarrow> set queue \<subseteq> processed \<Longrightarrow> set queue \<subseteq> border_rect w h \<Longrightarrow>
   set (flood_pops w h tc fc (img, queue, processed)) \<subseteq> border_rect w h"
proof (induction w h tc fc "(img, queue, processed)" arbitrary: img queue processed rule: flood_pops.induct)
  case (1 w h tc fc img processed)
  then show ?case by simp
next
  case (2 w h tc fc img p queue processed)
  obtain img' queue' processed' where
    v: "flood_visit w h tc fc p (img, queue, processed) = (img', queue', processed')"
    by (cases "flood_visit w h tc fc p (img, queue, processed)")
  from "2.prems" have dq: "distinct queue" and sq: "set queue \<subseteq> processed"
    and bq: "set queue \<subseteq> border_rect w h" and pb: "p \<in> border_rect w h" by auto
  from flood_visit_queue [OF v dq sq] bq
  have d': "distinct queue'" and s': "set queue' \<subseteq> processed'" and b': "set queue' \<subseteq> border_rect w h"
    by auto
  from "2.hyps" [OF v d' s' b'] pb v show ?case by auto
qed

lemma flood_loop_processed:
  "distinct queue \<Longrightarrow> set queue \<subseteq> processed \<Longrightarrow>
   snd (flood_loop w h tc fc (img, queue, processed))
   = ([], processed \<union> set (flood_pops w h tc fc (img, queue, processed)))"
proof (induction w h tc fc "(img, queue, processed)" arbitrary: img queue processed rule: flood_loop.induct)
  case (1 w h tc fc img processed)
  then show ?case by simp
next
  case (2 w h tc fc img p queue processed)
  obtain img' queue' processed' where
    v: "flood_visit w h tc fc p (img, queue, processed) = (img', queue', processed')"
    by (cases "flood_visit w h tc fc p (img, queue, processed)")
  from "2.prems" have dq: "distinct queue" and sq: "set queue \<subseteq> processed"
    and pp: "p \<in> processed" by auto
  from flood_visit_queue [OF v dq sq]
  have d': "distinct queue'" and s': "set queue' \<subseteq> processed'" and mono: "processed \<subseteq> processed'"
    and new: "set queue' - set queue = processed' - processed" by auto
  have popped: "set queue' \<subseteq> set (flood_pops w h tc fc (img', queue', processed'))"
    using d' s' by (rule flood_pops_queue)
  have "processed' \<union> set (flood_pops w h tc fc (img', queue', processed'))
        = processed \<union> set (flood_pops w h tc fc (img', queue', processed'))"
    using mono new popped by auto
  with "2.hyps" [OF v d' s'] v pp show ?case by auto
qed

lemma card_border_rect:
  assumes "0 \<le> w" "0 \<le> h"
  shows "card (border_rect w h) = nat ((w + 2) * (h + 2))"
proof -
  have "card (border_rect w h) = card {-1..w} * card {-1..h}"
    by (simp add: border_rect_def card_cartesian_product)
  also have "\<dots> = nat (w + 2) * nat (h + 2)" by (simp add: add.commute)
  also have "\<dots> = nat ((w + 2) * (h + 2))" using assms by (simp add: nat_mult_distrib)
  finally show ?thesis .
qed

text \<open>
  C5. The traversal started by \<open>flood_fill\<close> at a seed inside the image ends (the
  loop is a total function, by the potential \<open>fill_potential\<close>); no coordinate is taken
  from the queue twice, every coordinate taken lies in the image rectangle or its
  one-pixel border, the number of passes is at most \<open>(w + 2) * (h + 2)\<close>, and the loop
  ends with the queue empty and \<open>processed\<close> holding exactly the coordinates it took.
\<close>

theorem flood_fill_traversal_bounded:
  assumes "0 \<le> fst seed" "fst seed < w" "0 \<le> snd seed" "snd seed < h"
  shows "distinct (flood_pops w h tc fc (img, [seed], {seed}))
       \<and> set (flood_pops w h tc fc (img, [seed], {seed})) \<subseteq> border_rect w h
       \<and> length (flood_pops w h tc fc (img, [seed], {seed})) \<le> nat ((w + 2) * (h + 2))
       \<and> snd (flood_loop w h tc fc (img, [seed], {seed}))
           = ([], set (flood_pops w h tc fc (img, [seed], {seed})))"
proof -
  let ?pops = "flood_pops w h tc fc (img, [seed], {seed})"
  have sb: "seed \<in> border_rect w h" using assms by (cases seed) (auto simp: border_rect_def)
  have d: "distinct ?pops" using flood_pops_distinct [of "[seed]" "{seed}"] by simp
  have b: "set ?pops \<subseteq> border_rect w h"
    using flood_pops_border [of "[seed]" "{seed}" w h] sb by simp
  have "fill_potential w h (img, [seed], {seed}) = card (border_rect w h - {seed}) + 1"
    by (simp add: fill_potential_def)
  also have "\<dots> = card (border_rect w h)"
    using card_Suc_Diff1 [OF finite_border_rect sb] by simp
  also have "\<dots> = nat ((w + 2) * (h + 2))" using assms by (simp add: card_border_rect)
  finally have "length ?pops \<le> nat ((w + 2) * (h + 2))"
    using flood_pops_length [of w h tc fc "(img, [seed], {seed})"] by simp
  moreover have "seed \<in> set ?pops" by simp
  then have "snd (flood_loop w h tc fc (img, [seed], {seed})) = ([], set ?pops)"
    using flood_loop_processed [of "[seed]" "{seed}" w h tc fc img] by (simp add: insert_absorb)
  ultimately show ?thesis using d b by simp
qed

theorem flood_fill_traversal_bounded_witness:
  "distinct (flood_pops 800 600 transparent black (filled_image (800, 600) transparent, [(10, 10)], {(10, 10)}))
   \<and> length (flood_pops 800 600 transparent black (filled_image (800, 600) transparent, [(10, 10)], {(10, 10)}))
       \<le> 802 * 602"
  using flood_fill_traversal_bounded [of "(10, 10)" 800 600 transparent black "filled_image (800, 600) transparent"]
  by simp

section \<open>The canvas operations\<close>

lemmas canvas_defs = fresh_canvas_def set_up_canvas_def clear_canvas_def save_state_def Canvas_init_def
  deque_append_def MAX_UNDO_STATES_def DEFAULT_WIDTH_def DEFAULT_HEIGHT_def DEFAULT_PEN_SIZE_def

lemma fresh_fields:
  "undo_stack fresh_canvas = [(filled_image (800, 600) transparent, (800, 600))]"
  "image_size fresh_canvas = (800, 600)"
  "current_tool fresh_canvas = ''brush''"
  "scale_factor fresh_canvas = 1"
  "current_color fresh_canvas = black"
  "brush_size fresh_canvas = 5"
  "redo_stack fresh_canvas = []"
  "emitted fresh_canvas = [history_changed]"
  "scroll_calls fresh_canvas = []"
  by (simp_all add: canvas_defs Let_def)

lemma fresh_image: "image_buf fresh_canvas = filled_image (800, 600) transparent"
  by (auto simp add: canvas_defs Let_def fill_image_def filled_image_def rect_contains_def)

text \<open>
  C10. \<open>resize_canvas\<close> with the dimensions the canvas already has returns the canvas
  as it is, whatever the painter: the pixel buffer, the scale factor, both history stacks
  and the log of emitted signals are unchanged, so no snapshot is captured and no
  \<open>history_changed\<close> is emitted.
\<close>

theorem resize_same_size_noop:
  assumes "(new_width, new_height) = image_size c"
  shows "resize_canvas qp c new_width new_height = c"
  using assms by (simp add: resize_canvas_def QSize_def)

theorem resize_same_size_noop_witness:
  "(800, 600) = image_size fresh_canvas \<and> resize_canvas spec_painter fresh_canvas 800 600 = fresh_canvas"
  using resize_same_size_noop [of 800 600 fresh_canvas spec_painter] by (simp add: fresh_fields)


lemma save_state_fields:
  "image_buf (save_state c i) = image_buf c"
  "image_size (save_state c i) = image_size c"
  "undo_stack (save_state c i) = deque_append (undo_stack c) (image_buf c, image_size c)"
  "redo_stack (save_state c i) = (if i then redo_stack c else [])"
  "emitted (save_state c i) = emitted c @ [history_changed]"
  by (simp_all add: save_state_def Let_def)

text \<open>
  C4, as amended. When the pixel at a seed inside the image already has the fill colour,
  \<open>flood_fill\<close> returns the canvas unchanged, buffer and both history stacks included.
  The press of the left button with the bucket tool that calls it still captures the
  history once: the buffer is unchanged, the undo stack gains the (unchanged) buffer and
  the redo stack is emptied.
\<close>

theorem flood_fill_same_color_noop:
  assumes "rect_contains (image_buf c) seed"
    and "pixelColor (image_buf c) seed = (if erase_mode then RGBA 0 0 0 0 else current_color c)"
  shows "flood_fill c seed erase_mode = c
       \<and> (button event = LeftButton \<and> current_tool c = ''bucket''
            \<and> toPoint (to_image_coords fl c (position event)) = seed \<and> \<not> erase_mode
          \<longrightarrow> image_buf (mousePressEvent fl qp c event) = image_buf c
            \<and> undo_stack (mousePressEvent fl qp c event)
                = deque_append (undo_stack c) (image_buf c, image_size c)
            \<and> redo_stack (mousePressEvent fl qp c event) = [])"
proof -
  have ff: "flood_fill c seed erase_mode = c"
    using assms by (simp add: flood_fill_def Let_def)
  show ?thesis
  proof (intro conjI impI)
    show "flood_fill c seed erase_mode = c" by (rule ff)
  next
    assume a: "button event = LeftButton \<and> current_tool c = ''bucket''
            \<and> toPoint (to_image_coords fl c (position event)) = seed \<and> \<not> erase_mode"
    then have press: "mousePressEvent fl qp c event = save_state (c\<lparr>current_stroke_saved := True\<rparr>) False"
      using ff by (simp add: mousePressEvent_def Let_def)
    show "image_buf (mousePressEvent fl qp c event) = image_buf c"
      by (simp add: press save_state_fields)
    show "undo_stack (mousePressEvent fl qp c event) = deque_append (undo_stack c) (image_buf c, image_size c)"
      by (simp add: press save_state_fields)
    show "redo_stack (mousePressEvent fl qp c event) = []"
      by (simp add: press save_state_fields)
  qed
qed

lemma lower_bucket: "ascii_lower ''Bucket'' = ''bucket''"
  by (simp add: ascii_lower_def ascii_lower_char_def char_of_def bit_iff_odd)

lemma bucket_fields:
  "current_tool bucket_canvas = ''bucket''"
  "current_color bucket_canvas = black"
  "image_buf bucket_canvas = filled_image (2, 2) black"
  "image_size bucket_canvas = (2, 2)"
  "undo_stack bucket_canvas = [(filled_image (2, 2) black, (2, 2))]"
  "redo_stack bucket_canvas = []"
  "scale_factor bucket_canvas = 1"
  by (simp_all add: bucket_canvas_def set_tool_def load_image_def isNull_def filled_image_def Canvas_init_def
        save_state_def deque_append_def MAX_UNDO_STATES_def Let_def lower_bucket)

lemma bucket_seed:
  "toPoint (to_image_coords exact bucket_canvas (position (press_at (0, 0)))) = (0, 0)"
  by (simp add: toPoint_def to_image_coords_def exact_def press_at_def qRound_def bucket_fields)

lemma bucket_pixel: "pixelColor (filled_image (2, 2) black) (0, 0) = black"
  by (simp add: pixelColor_def rect_contains_def filled_image_def)

theorem flood_fill_same_color_noop_witness:
  "flood_fill bucket_canvas (0, 0) False = bucket_canvas
   \<and> image_buf (mousePressEvent exact spec_painter bucket_canvas (press_at (0, 0))) = image_buf bucket_canvas
   \<and> undo_stack (mousePressEvent exact spec_painter bucket_canvas (press_at (0, 0)))
       = [(filled_image (2, 2) black, (2, 2)), (filled_image (2, 2) black, (2, 2))]
   \<and> redo_stack (mousePressEvent exact spec_painter bucket_canvas (press_at (0, 0))) = []"
proof -
  have c: "rect_contains (image_buf bucket_canvas) (0, 0)"
    by (simp add: bucket_fields rect_contains_def filled_image_def)
  have p: "pixelColor (image_buf bucket_canvas) (0, 0) = (if False then RGBA 0 0 0 0 else current_color bucket_canvas)"
    by (simp add: bucket_pixel bucket_fields)
  from flood_fill_same_color_noop [OF c p, of "press_at (0, 0)" exact spec_painter] bucket_seed
  show ?thesis
    by (simp add: bucket_fields press_at_def deque_append_def MAX_UNDO_STATES_def)
qed

text \<open>The claim as stated fails: on \<open>bucket_canvas\<close> the pixel at (0, 0) has the fill
  colour, and the press there grows the undo stack from one entry to two.\<close>

theorem bucket_press_captures_on_noop:
  "pixelColor (image_buf bucket_canvas) (0, 0) = current_color bucket_canvas
   \<and> length (undo_stack bucket_canvas) = 1
   \<and> length (undo_stack (mousePressEvent exact spec_painter bucket_canvas (press_at (0, 0)))) = 2"
proof -
  have rc: "rect_contains (image_buf bucket_canvas) (0, 0)"
    by (simp add: bucket_fields rect_contains_def filled_image_def)
  have px: "pixelColor (image_buf bucket_canvas) (0, 0) = current_color bucket_canvas"
    by (simp add: bucket_pixel bucket_fields)
  have "flood_fill bucket_canvas (0, 0) False = bucket_canvas"
    using rc px by (simp add: flood_fill_def Let_def)
  then have "mousePressEvent exact spec_painter bucket_canvas (press_at (0, 0))
             = save_state (bucket_canvas\<lparr>current_stroke_saved := True\<rparr>) False"
    using bucket_seed by (simp add: mousePressEvent_def Let_def press_at_def bucket_fields)
  then show ?thesis
    by (simp add: save_state_fields bucket_fields bucket_pixel deque_append_def MAX_UNDO_STATES_def)
qed

lemma resize_canvas_stack:
  "undo_stack (resize_canvas qp c w h) =
     (if \<not> (fits_int w \<and> fits_int h) \<or> (w, h) = image_size c then undo_stack c
      else deque_append (undo_stack c) (image_buf c, image_size c))"
  "image_size (resize_canvas qp c w h) =
     (if \<not> (fits_int w \<and> fits_int h) then image_size c else (w, h))"
  by (auto simp add: resize_canvas_def QSize_def save_state_fields Let_def)

lemma resize_canvas_same:
  "\<not> (fits_int w \<and> fits_int h) \<or> (w, h) = image_size c \<Longrightarrow> resize_canvas qp c w h = c"
  by (auto simp add: resize_canvas_def QSize_def)

lemma square_fields:
  "image_size square_canvas = (800, 600)"
  "image_buf square_canvas = square_image"
  "undo_stack square_canvas = []"
  by (simp_all add: square_canvas_def Canvas_init_def DEFAULT_WIDTH_def DEFAULT_HEIGHT_def)

lemma spin_range:
  "getDimensions (dialog_exec (ResizeDialog_init cw ch) entered)
     = (max 1 (min (fst entered) MAX_CANVAS_DIM), max 1 (min (snd entered) MAX_CANVAS_DIM))"
  by (simp add: getDimensions_def dialog_exec_def ResizeDialog_init_def setValue_def setRange_def
        QSpinBox_def MAX_CANVAS_DIM_def)

lemma show_resize_dialog_unfold:
  "show_resize_dialog qp c accepted entered =
     (if accepted
      then resize_canvas qp c (max 1 (min (fst entered) MAX_CANVAS_DIM))
             (max 1 (min (snd entered) MAX_CANVAS_DIM))
      else c)"
  by (simp add: show_resize_dialog_def Let_def spin_range MAX_CANVAS_DIM_def less_max_iff_disj)

lemma resize_canvas_other:
  assumes "fits_int w" "fits_int h" "(w, h) \<noteq> image_size c"
  shows "resize_canvas qp c w h =
           (save_state c False)\<lparr>image_buf :=
              (if isNull (filled_image (w, h) transparent) then filled_image (w, h) transparent
               else drawImage qp ((0, 0), boundedTo (image_size c) (w, h)) (image_buf c)
                      ((0, 0), boundedTo (image_size c) (w, h)) (filled_image (w, h) transparent)),
              image_size := (w, h)\<rparr>"
  using assms by (simp add: resize_canvas_def QSize_def Let_def save_state_fields)

lemma fits_int_dim: "0 < w \<Longrightarrow> w \<le> MAX_CANVAS_DIM \<Longrightarrow> fits_int w"
  by (simp add: fits_int_def MAX_CANVAS_DIM_def)

lemma spec_drawImage_pixel:
  assumes "0 < w" "0 < h"
  shows "pixelColor (drawImage spec_painter ((0, 0), boundedTo sz (w, h)) src
                       ((0, 0), boundedTo sz (w, h)) (filled_image (w, h) transparent)) p =
             (if 0 \<le> fst p \<and> fst p < w \<and> 0 \<le> snd p \<and> snd p < h then
                (if fst p < fst sz \<and> snd p < snd sz \<and> rect_contains src p
                 then pixelColor src p else transparent)
              else Invalid)"
  using assms
  by (auto simp: spec_painter_def in_rect_def filled_image_def pixelColor_def rect_contains_def
        boundedTo_def Let_def)

lemma spec_drawImage_size:
  "img_width (drawImage spec_painter r src r' img) = img_width img"
  "img_height (drawImage spec_painter r src r' img) = img_height img"
  by (simp_all add: spec_painter_def)

text \<open>
  C8, as amended. \<open>resize_canvas\<close> checks its arguments against no range. A width or a
  height outside 32 bits makes \<open>QSize\<close> raise \<open>OverflowError\<close>, and the canvas stays as it
  is. Every other size that differs from the current one, a non-positive one and one above
  \<open>MAX_CANVAS_DIM\<close> included, is taken: the history is captured first (the previous buffer
  and size are pushed, the redo stack is emptied, \<open>history_changed\<close> is emitted), then
  the size is set; with a non-positive side the new buffer is the null image. For a new
  size from 1 to \<open>MAX_CANVAS_DIM\<close> each way the new buffer is what the painter's
  \<open>drawImage\<close> makes of a transparent image of the new size, with the rectangle at the
  origin that the old and the new size share as target and as source; with the painter of
  the specification it has the new size, holds the old pixel wherever the old and the new
  bounds overlap, and is transparent elsewhere. The range from 1 to \<open>MAX_CANVAS_DIM\<close> is
  kept by the spin boxes of the resize dialog: an accepted dialog resizes to the entered
  size moved into that range, a cancelled one changes nothing.
\<close>

theorem resize_canvas_effect:
  "(\<not> (fits_int w \<and> fits_int h) \<longrightarrow>
        QSize w h = Inl OverflowError \<and> resize_canvas qp c w h = c)
   \<and> (fits_int w \<and> fits_int h \<and> (w, h) \<noteq> image_size c \<longrightarrow>
        image_size (resize_canvas qp c w h) = (w, h)
      \<and> undo_stack (resize_canvas qp c w h) = deque_append (undo_stack c) (image_buf c, image_size c)
      \<and> redo_stack (resize_canvas qp c w h) = []
      \<and> emitted (resize_canvas qp c w h) = emitted c @ [history_changed]
      \<and> (w \<le> 0 \<or> h \<le> 0 \<longrightarrow> isNull (image_buf (resize_canvas qp c w h))))
   \<and> ((w, h) \<noteq> image_size c \<and> 0 < w \<and> w \<le> MAX_CANVAS_DIM \<and> 0 < h \<and> h \<le> MAX_CANVAS_DIM \<longrightarrow>
        image_buf (resize_canvas qp c w h)
          = drawImage qp ((0, 0), boundedTo (image_size c) (w, h)) (image_buf c)
              ((0, 0), boundedTo (image_size c) (w, h)) (filled_image (w, h) transparent)
      \<and> img_width (image_buf (resize_canvas spec_painter c w h)) = w
      \<and> img_height (image_buf (resize_canvas spec_painter c w h)) = h
      \<and> pixelColor (image_buf (resize_canvas spec_painter c w h)) p =
             (if 0 \<le> fst p \<and> fst p < w \<and> 0 \<le> snd p \<and> snd p < h then
                (if fst p < fst (image_size c) \<and> snd p < snd (image_size c)
                    \<and> rect_contains (image_buf c) p
                 then pixelColor (image_buf c) p else transparent)
              else Invalid))
   \<and> show_resize_dialog qp c False entered = c
   \<and> show_resize_dialog qp c True entered
        = resize_canvas qp c (max 1 (min (fst entered) MAX_CANVAS_DIM))
            (max 1 (min (snd entered) MAX_CANVAS_DIM))"
proof (intro conjI impI)
  assume a: "\<not> (fits_int w \<and> fits_int h)"
  then show "QSize w h = Inl OverflowError" by (simp add: QSize_def)
  from a show "resize_canvas qp c w h = c" by (simp add: resize_canvas_same)
next
  assume a: "fits_int w \<and> fits_int h \<and> (w, h) \<noteq> image_size c"
  then have r: "resize_canvas qp c w h =
           (save_state c False)\<lparr>image_buf :=
              (if isNull (filled_image (w, h) transparent) then filled_image (w, h) transparent
               else drawImage qp ((0, 0), boundedTo (image_size c) (w, h)) (image_buf c)
                      ((0, 0), boundedTo (image_size c) (w, h)) (filled_image (w, h) transparent)),
              image_size := (w, h)\<rparr>"
    by (simp add: resize_canvas_other)
  show "image_size (resize_canvas qp c w h) = (w, h)" by (simp add: r)
  show "undo_stack (resize_canvas qp c w h) = deque_append (undo_stack c) (image_buf c, image_size c)"
    by (simp add: r save_state_fields)
  show "redo_stack (resize_canvas qp c w h) = []" by (simp add: r save_state_fields)
  show "emitted (resize_canvas qp c w h) = emitted c @ [history_changed]"
    by (simp add: r save_state_fields)
  assume "w \<le> 0 \<or> h \<le> 0"
  then show "isNull (image_buf (resize_canvas qp c w h))"
    by (auto simp add: r isNull_def filled_image_def)
next
  assume a: "(w, h) \<noteq> image_size c \<and> 0 < w \<and> w \<le> MAX_CANVAS_DIM \<and> 0 < h \<and> h \<le> MAX_CANVAS_DIM"
  then have f: "fits_int w" "fits_int h" by (simp_all add: fits_int_dim)
  from a have nn: "\<not> isNull (filled_image (w, h) transparent)"
    by (simp add: isNull_def filled_image_def)
  have img: "image_buf (resize_canvas qp' c w h)
          = drawImage qp' ((0, 0), boundedTo (image_size c) (w, h)) (image_buf c)
              ((0, 0), boundedTo (image_size c) (w, h)) (filled_image (w, h) transparent)" for qp'
    using a f nn by (simp add: resize_canvas_other)
  show "image_buf (resize_canvas qp c w h)
          = drawImage qp ((0, 0), boundedTo (image_size c) (w, h)) (image_buf c)
              ((0, 0), boundedTo (image_size c) (w, h)) (filled_image (w, h) transparent)"
    by (rule img)
  show "img_width (image_buf (resize_canvas spec_painter c w h)) = w"
    using a by (simp add: img spec_drawImage_size filled_image_def)
  show "img_height (image_buf (resize_canvas spec_painter c w h)) = h"
    using a by (simp add: img spec_drawImage_size filled_image_def)
  show "pixelColor (image_buf (resize_canvas spec_painter c w h)) p =
             (if 0 \<le> fst p \<and> fst p < w \<and> 0 \<le> snd p \<and> snd p < h then
                (if fst p < fst (image_size c) \<and> snd p < snd (image_size c)
                    \<and> rect_contains (image_buf c) p
                 then pixelColor (image_buf c) p else transparent)
              else Invalid)"
    unfolding img using a by (intro spec_drawImage_pixel) simp_all
next
  show "show_resize_dialog qp c False entered = c" by (simp add: show_resize_dialog_unfold)
  show "show_resize_dialog qp c True entered
        = resize_canvas qp c (max 1 (min (fst entered) MAX_CANVAS_DIM))
            (max 1 (min (snd entered) MAX_CANVAS_DIM))"
    by (simp add: show_resize_dialog_unfold)
qed

lemma square_pixels:
  "rect_contains square_image (4, 4)"
  "pixelColor square_image (4, 4) = black"
  by (simp_all add: square_image_def rect_contains_def pixelColor_def DEFAULT_WIDTH_def DEFAULT_HEIGHT_def)

theorem resize_canvas_effect_witness:
  "QSize 2147483648 600 = Inl OverflowError
   \<and> resize_canvas spec_painter square_canvas 2147483648 600 = square_canvas
   \<and> image_size (resize_canvas spec_painter square_canvas 5 700) = (5, 700)
   \<and> undo_stack (resize_canvas spec_painter square_canvas 5 700) = [(square_image, (800, 600))]
   \<and> pixelColor (image_buf (resize_canvas spec_painter square_canvas 5 700)) (4, 4) = black
   \<and> pixelColor (image_buf (resize_canvas spec_painter square_canvas 5 700)) (4, 650) = transparent
   \<and> pixelColor (image_buf (resize_canvas spec_painter square_canvas 5 700)) (5, 4) = Invalid
   \<and> isNull (image_buf (resize_canvas spec_painter square_canvas 0 600))
   \<and> show_resize_dialog spec_painter square_canvas True (20000, 0)
       = resize_canvas spec_painter square_canvas 10000 1"
proof -
  note t = resize_canvas_effect [where qp = spec_painter and c = square_canvas]
  have a: "QSize 2147483648 600 = Inl OverflowError
           \<and> resize_canvas spec_painter square_canvas 2147483648 600 = square_canvas"
    using t [where w = 2147483648 and h = 600] by (simp add: fits_int_def)
  have f: "fits_int 5" "fits_int 700" "fits_int 0" "fits_int 600" by (simp_all add: fits_int_def)
  have b: "image_size (resize_canvas spec_painter square_canvas 5 700) = (5, 700)
           \<and> undo_stack (resize_canvas spec_painter square_canvas 5 700) = [(square_image, (800, 600))]"
    using t [where w = 5 and h = 700] f
    by (simp add: square_fields deque_append_def MAX_UNDO_STATES_def)
  have g: "(5, 700) \<noteq> image_size square_canvas \<and> (0::int) < 5 \<and> 5 \<le> MAX_CANVAS_DIM
           \<and> (0::int) < 700 \<and> 700 \<le> MAX_CANVAS_DIM"
    by (simp add: square_fields MAX_CANVAS_DIM_def)
  have px: "pixelColor (image_buf (resize_canvas spec_painter square_canvas 5 700)) p =
             (if 0 \<le> fst p \<and> fst p < 5 \<and> 0 \<le> snd p \<and> snd p < 700 then
                (if fst p < fst (image_size square_canvas) \<and> snd p < snd (image_size square_canvas)
                    \<and> rect_contains (image_buf square_canvas) p
                 then pixelColor (image_buf square_canvas) p else transparent)
              else Invalid)" for p
    using t [where w = 5 and h = 700 and p = p] g by blast
  have p1: "pixelColor (image_buf (resize_canvas spec_painter square_canvas 5 700)) (4, 4) = black"
    by (simp add: px square_fields square_pixels)
  have p2: "pixelColor (image_buf (resize_canvas spec_painter square_canvas 5 700)) (4, 650) = transparent"
    by (simp add: px square_fields)
  have p3: "pixelColor (image_buf (resize_canvas spec_painter square_canvas 5 700)) (5, 4) = Invalid"
    by (simp add: px)
  have n: "isNull (image_buf (resize_canvas spec_painter square_canvas 0 600))"
    using t [where w = 0 and h = 600] f by (simp add: square_fields)
  have d: "show_resize_dialog spec_painter square_canvas True (20000, 0)
       = resize_canvas spec_painter square_canvas 10000 1"
    using t [where entered = "(20000, 0)"] by (simp add: MAX_CANVAS_DIM_def)
  from a b p1 p2 p3 n d show ?thesis by simp
qed

text \<open>The claim as stated fails: called on the fresh 800 x 600 canvas with a width of
  10001, above \<open>MAX_CANVAS_DIM\<close>, and with a width of 0, \<open>resize_canvas\<close> takes the size
  and captures the history.\<close>

theorem resize_out_of_range_applied:
  "MAX_CANVAS_DIM < 10001
   \<and> image_size fresh_canvas = (800, 600)
   \<and> length (undo_stack fresh_canvas) = 1
   \<and> image_size (resize_canvas spec_painter fresh_canvas 10001 600) = (10001, 600)
   \<and> length (undo_stack (resize_canvas spec_painter fresh_canvas 10001 600)) = 2
   \<and> image_size (resize_canvas spec_painter fresh_canvas 0 600) = (0, 600)
   \<and> length (undo_stack (resize_canvas spec_painter fresh_canvas 0 600)) = 2"
  by (simp add: MAX_CANVAS_DIM_def resize_canvas_stack fits_int_def fresh_fields
        deque_append_def MAX_UNDO_STATES_def)


lemma adjust_size_unfold:
  "adjust_size c delta =
     (let n = max MIN_PEN_SIZE (min (current_pen_size c + delta) MAX_PEN_SIZE)
      in if current_tool c = ''brush'' \<and> brush_size c \<noteq> n
         then c\<lparr>brush_size := n, emitted := emitted c @ [pen_size_changed n]\<rparr>
         else if current_tool c = ''eraser'' \<and> eraser_size c \<noteq> n
         then c\<lparr>eraser_size := n, emitted := emitted c @ [pen_size_changed n]\<rparr>
         else c)"
  unfolding adjust_size_def Let_def by simp

lemma adjust_size_emitted:
  "emitted (adjust_size c delta) =
     (if current_pen_size (adjust_size c delta) \<noteq> current_pen_size c
      then emitted c @ [pen_size_changed (current_pen_size (adjust_size c delta))]
      else emitted c)"
proof -
  define n where "n = max MIN_PEN_SIZE (min (current_pen_size c + delta) MAX_PEN_SIZE)"
  have u: "adjust_size c delta =
     (if current_tool c = ''brush'' \<and> brush_size c \<noteq> n
         then c\<lparr>brush_size := n, emitted := emitted c @ [pen_size_changed n]\<rparr>
         else if current_tool c = ''eraser'' \<and> eraser_size c \<noteq> n
         then c\<lparr>eraser_size := n, emitted := emitted c @ [pen_size_changed n]\<rparr>
         else c)"
    unfolding adjust_size_unfold Let_def n_def by (rule refl)
  show ?thesis
  proof (cases "current_tool c = ''brush''")
    case True
    then show ?thesis unfolding u by (simp add: current_pen_size_def)
  next
    case False
    note nb = this
    show ?thesis
    proof (cases "current_tool c = ''eraser''")
      case True
      then show ?thesis unfolding u by (simp add: current_pen_size_def)
    next
      case False
      with nb show ?thesis unfolding u by (simp add: current_pen_size_def)
    qed
  qed
qed

lemma adjust_size_pen:
  "current_pen_size (adjust_size c delta) =
       (if current_tool c = ''brush'' \<or> current_tool c = ''eraser''
        then max MIN_PEN_SIZE (min (current_pen_size c + delta) MAX_PEN_SIZE) else 1)"
proof -
  define n where "n = max MIN_PEN_SIZE (min (current_pen_size c + delta) MAX_PEN_SIZE)"
  have u: "adjust_size c delta =
     (if current_tool c = ''brush'' \<and> brush_size c \<noteq> n
         then c\<lparr>brush_size := n, emitted := emitted c @ [pen_size_changed n]\<rparr>
         else if current_tool c = ''eraser'' \<and> eraser_size c \<noteq> n
         then c\<lparr>eraser_size := n, emitted := emitted c @ [pen_size_changed n]\<rparr>
         else c)"
    unfolding adjust_size_unfold Let_def n_def by (rule refl)
  show ?thesis
    unfolding n_def [symmetric]
  proof (cases "current_tool c = ''brush''")
    case True
    then show "current_pen_size (adjust_size c delta) =
       (if current_tool c = ''brush'' \<or> current_tool c = ''eraser'' then n else 1)"
      unfolding u by (simp add: current_pen_size_def)
  next
    case False
    then show "current_pen_size (adjust_size c delta) =
       (if current_tool c = ''brush'' \<or> current_tool c = ''eraser'' then n else 1)"
      unfolding u by (cases "current_tool c = ''eraser''") (simp_all add: current_pen_size_def)
  qed
qed

lemma set_pen_size_pen:
  "current_pen_size (set_pen_size c n) =
       (if current_tool c = ''brush'' \<or> current_tool c = ''eraser''
        then max MIN_PEN_SIZE (min n MAX_PEN_SIZE) else 1)"
  by (simp add: set_pen_size_def current_pen_size_def Let_def)

lemma set_color_emitted:
  "emitted (set_color c colour) =
       (if isValid colour then emitted c @ [color_changed colour] else emitted c)
   \<and> current_color (set_color c colour) = (if isValid colour then colour else current_color c)"
  by (simp add: set_color_def Let_def)

lemma set_pen_size_emitted: "emitted (set_pen_size c n) = emitted c"
  by (simp add: set_pen_size_def Let_def)

lemma set_tool_emitted:
  "emitted (set_tool lower c tool) =
       (if lower tool \<noteq> current_tool c
        then emitted c @ [pen_size_changed (current_pen_size (set_tool lower c tool))]
        else emitted c)
   \<and> current_tool (set_tool lower c tool) = lower tool"
  by (simp add: set_tool_def Let_def current_pen_size_def)

text \<open>
  C9, as amended. \<open>adjust_size\<close> emits \<open>pen_size_changed\<close> exactly when the active pen
  size changes, with the new size; the new size is the target clamped to
  [\<open>MIN_PEN_SIZE\<close>, \<open>MAX_PEN_SIZE\<close>] for the brush and the eraser and stays 1 for any other
  tool. \<open>set_pen_size\<close> applies the same clamp to the size it is given and emits nothing,
  whether or not the size changes. \<open>set_color\<close> emits \<open>color_changed\<close> for every valid
  colour, whether or not it differs from the current one, and nothing for an invalid one.
  \<open>set_tool\<close> emits \<open>pen_size_changed\<close>, with the pen size of the new tool, exactly when
  the lower-cased tool name differs from the current tool, whatever \<^verbatim>\<open>str.lower\<close> does.
\<close>

theorem notifications_of_setters:
  "emitted (adjust_size c delta) =
     (if current_pen_size (adjust_size c delta) \<noteq> current_pen_size c
      then emitted c @ [pen_size_changed (current_pen_size (adjust_size c delta))]
      else emitted c)
   \<and> current_pen_size (adjust_size c delta) =
       (if current_tool c = ''brush'' \<or> current_tool c = ''eraser''
        then max MIN_PEN_SIZE (min (current_pen_size c + delta) MAX_PEN_SIZE) else 1)
   \<and> emitted (set_pen_size c n) = emitted c
   \<and> current_pen_size (set_pen_size c n) =
       (if current_tool c = ''brush'' \<or> current_tool c = ''eraser''
        then max MIN_PEN_SIZE (min n MAX_PEN_SIZE) else 1)
   \<and> emitted (set_color c colour) =
       (if isValid colour then emitted c @ [color_changed colour] else emitted c)
   \<and> current_color (set_color c colour) = (if isValid colour then colour else current_color c)
   \<and> emitted (set_tool lower c tool) =
       (if lower tool \<noteq> current_tool c
        then emitted c @ [pen_size_changed (current_pen_size (set_tool lower c tool))]
        else emitted c)
   \<and> current_tool (set_tool lower c tool) = lower tool"
  using adjust_size_emitted [of c delta] adjust_size_pen [of c delta] set_pen_size_pen [of c n]
    set_pen_size_emitted [of c n] set_color_emitted [of c colour] set_tool_emitted [of lower c tool]
  by (simp only: simp_thms)

text \<open>The claim as stated fails on the fresh canvas, whose colour is black and whose
  brush has size 5: setting the colour black again emits \<open>color_changed\<close>, and setting
  the pen size to 10 changes the size and emits nothing.\<close>

theorem setters_notify_otherwise:
  "current_color fresh_canvas = black
   \<and> current_color (set_color fresh_canvas black) = black
   \<and> emitted (set_color fresh_canvas black) = emitted fresh_canvas @ [color_changed black]
   \<and> current_pen_size fresh_canvas = 5
   \<and> current_pen_size (set_pen_size fresh_canvas 10) = 10
   \<and> emitted (set_pen_size fresh_canvas 10) = emitted fresh_canvas"
  by (simp add: set_color_def isValid_def black_def fresh_fields Let_def set_pen_size_def
        current_pen_size_def MIN_PEN_SIZE_def MAX_PEN_SIZE_def)

section \<open>History: undo after edits\<close>

lemma deque_append_short:
  "length d < MAX_UNDO_STATES \<Longrightarrow> deque_append d x = d @ [x]"
  by (simp add: deque_append_def)

lemma clear_canvas_stack:
  "undo_stack (clear_canvas c) = deque_append (undo_stack c) (image_buf c, image_size c)"
  by (simp add: clear_canvas_def save_state_fields Let_def)

lemma apply_edit_stack:
  "undo_stack (apply_edit qp c e) = undo_stack c
   \<or> undo_stack (apply_edit qp c e) = deque_append (undo_stack c) (image_buf c, image_size c)"
  by (cases e) (simp_all add: clear_canvas_stack resize_canvas_stack)

lemma apply_edit_noop:
  "undo_stack (apply_edit qp c e) = undo_stack c
   \<Longrightarrow> undo_stack c = [b] \<Longrightarrow> length (undo_stack c) < MAX_UNDO_STATES
   \<Longrightarrow> (image_buf (apply_edit qp c e), image_size (apply_edit qp c e)) = (image_buf c, image_size c)"
proof (cases e)
  case Clear
  assume "undo_stack (apply_edit qp c e) = undo_stack c" "length (undo_stack c) < MAX_UNDO_STATES"
  then show ?thesis using Clear by (simp add: clear_canvas_stack deque_append_short)
next
  case (Resize w h)
  assume a: "undo_stack (apply_edit qp c e) = undo_stack c" "length (undo_stack c) < MAX_UNDO_STATES"
  show ?thesis
  proof (cases "\<not> (fits_int w \<and> fits_int h) \<or> (w, h) = image_size c")
    case True
    then show ?thesis using Resize by (simp add: resize_canvas_same)
  next
    case False
    then show ?thesis using Resize a by (simp add: resize_canvas_stack deque_append_short)
  qed
qed

lemma apply_edit_hist:
  assumes "hist_ok b c" and "length (undo_stack c) < MAX_UNDO_STATES"
  shows "hist_ok b (apply_edit qp c e)
       \<and> length (undo_stack (apply_edit qp c e)) \<le> Suc (length (undo_stack c))"
proof -
  from apply_edit_stack [of qp c e] show ?thesis
  proof
    assume same: "undo_stack (apply_edit qp c e) = undo_stack c"
    from assms(1) have "hist_ok b (apply_edit qp c e)"
      unfolding hist_ok_def
    proof
      assume one: "undo_stack c = [b] \<and> (image_buf c, image_size c) = b"
      with apply_edit_noop [OF same _ assms(2), of b]
      show "(undo_stack (apply_edit qp c e) = [b] \<and> (image_buf (apply_edit qp c e), image_size (apply_edit qp c e)) = b)
            \<or> (\<exists>rest. undo_stack (apply_edit qp c e) = b # b # rest)"
        using same by simp
    next
      assume "\<exists>rest. undo_stack c = b # b # rest"
      then show "(undo_stack (apply_edit qp c e) = [b] \<and> (image_buf (apply_edit qp c e), image_size (apply_edit qp c e)) = b)
            \<or> (\<exists>rest. undo_stack (apply_edit qp c e) = b # b # rest)"
        using same by simp
    qed
    with same show ?thesis by simp
  next
    assume "undo_stack (apply_edit qp c e) = deque_append (undo_stack c) (image_buf c, image_size c)"
    then have push: "undo_stack (apply_edit qp c e) = undo_stack c @ [(image_buf c, image_size c)]"
      using assms(2) by (simp add: deque_append_short)
    from assms(1) have "\<exists>rest. undo_stack (apply_edit qp c e) = b # b # rest"
      unfolding hist_ok_def using push by auto
    then show ?thesis using push by (simp add: hist_ok_def)
  qed
qed

lemma foldl_apply_edit_hist:
  "hist_ok b c \<Longrightarrow> length (undo_stack c) + length es \<le> MAX_UNDO_STATES
   \<Longrightarrow> hist_ok b (foldl (apply_edit qp) c es)
       \<and> length (undo_stack (foldl (apply_edit qp) c es)) \<le> length (undo_stack c) + length es"
proof (induction es arbitrary: c)
  case Nil
  then show ?case by simp
next
  case (Cons e es)
  from Cons.prems have lt: "length (undo_stack c) < MAX_UNDO_STATES" by simp
  from apply_edit_hist [OF Cons.prems(1) lt, where e = e and qp = qp]
  have h: "hist_ok b (apply_edit qp c e)"
    and l: "length (undo_stack (apply_edit qp c e)) \<le> Suc (length (undo_stack c))" by auto
  from l Cons.prems(2) have "length (undo_stack (apply_edit qp c e)) + length es \<le> MAX_UNDO_STATES"
    by simp
  from Cons.IH [OF h this] l show ?case by simp
qed

lemma undo_fields:
  "can_undo c \<Longrightarrow> undo_stack (undo c) = butlast (undo_stack c)"
  "can_undo c \<Longrightarrow> image_buf (undo c) = fst (last (undo_stack c))"
  "can_undo c \<Longrightarrow> image_size (undo c) = snd (last (undo_stack c))"
  "\<not> can_undo c \<Longrightarrow> undo c = c"
  by (simp_all add: undo_def Let_def)

lemma undo_hist:
  assumes "hist_ok b c"
  shows "hist_ok b (undo c) \<and> length (undo_stack (undo c)) \<le> length (undo_stack c)
       \<and> (1 < length (undo_stack c) \<longrightarrow> Suc (length (undo_stack (undo c))) = length (undo_stack c))"
proof (cases "can_undo c")
  case False
  then show ?thesis using assms by (simp add: undo_fields can_undo_def)
next
  case True
  with assms obtain rest where st: "undo_stack c = b # b # rest"
    by (auto simp: hist_ok_def can_undo_def)
  show ?thesis
  proof (cases rest rule: rev_cases)
    case Nil
    with st True show ?thesis by (simp add: hist_ok_def undo_fields)
  next
    case (snoc ys y)
    with st True show ?thesis by (simp add: hist_ok_def undo_fields butlast_append)
  qed
qed

lemma undo_pow_baseline:
  "hist_ok b c \<Longrightarrow> length (undo_stack c) \<le> Suc n
   \<Longrightarrow> (image_buf ((undo ^^ n) c), image_size ((undo ^^ n) c)) = b"
proof (induction n arbitrary: c)
  case 0
  then show ?case by (auto simp: hist_ok_def)
next
  case (Suc n)
  from undo_hist [OF Suc.prems(1)] Suc.prems(2)
  have h: "hist_ok b (undo c)" and l: "length (undo_stack (undo c)) \<le> Suc n" by auto
  from Suc.IH [OF h l] show ?case by (simp add: funpow_swap1)
qed

text \<open>The events of a stroke and the undo stack.\<close>

lemma draw_point_stack: "undo_stack (draw_point qp c p) = undo_stack c"
  "image_size (draw_point qp c p) = image_size c"
  by (simp_all add: draw_point_def)

lemma draw_line_to_stack: "undo_stack (draw_line_to qp c p) = undo_stack c"
  by (simp add: draw_line_to_def)

lemma mouseMoveEvent_stack: "undo_stack (mouseMoveEvent fl qp c bars e) = undo_stack c"
  by (simp add: mouseMoveEvent_def Let_def draw_line_to_stack)

lemma mouseReleaseEvent_stack: "undo_stack (mouseReleaseEvent c e) = undo_stack c"
  by (simp add: mouseReleaseEvent_def Let_def)

lemma press_brush_stack:
  assumes "button e = LeftButton" "current_tool c \<noteq> ''bucket''"
  shows "undo_stack (mousePressEvent fl qp c e)
         = deque_append (undo_stack c)
             (image_buf (draw_point qp (c\<lparr>drawing := True, last_point := to_image_coords fl c (position e)\<rparr>)
                           (to_image_coords fl c (position e))), image_size c)"
  using assms by (simp add: mousePressEvent_def Let_def save_state_fields draw_point_stack)

lemma stroke_can_undo: "can_undo (stroke fl qp fresh_canvas a b)"
proof -
  have "length (undo_stack (mousePressEvent fl qp fresh_canvas (press_at a))) = 2"
    by (subst press_brush_stack)
       (simp_all add: press_at_def fresh_fields deque_append_def MAX_UNDO_STATES_def)
  then show ?thesis
    by (simp add: stroke_def can_undo_def mouseMoveEvent_stack mouseReleaseEvent_stack)
qed

text \<open>
  C1, as amended. Start from a canvas whose undo stack holds the baseline alone, equal to
  the live buffer (the state after creation or after loading an image), and apply any
  sequence of N clears and resizes, N below the history capacity of 50 (the capacity
  counts the baseline entry). Then N calls of \<open>undo\<close> give back the baseline buffer and
  size. \<open>can_undo\<close> is false on the canvas right after creation, and true after a
  brush stroke from (10, 10) to (50, 10), whatever the rasteriser and the rounding.
\<close>

theorem undo_restores_baseline:
  assumes "undo_stack c = [(image_buf c, image_size c)]" and "length es < MAX_UNDO_STATES"
  shows "image_buf ((undo ^^ length es) (foldl (apply_edit qp) c es)) = image_buf c
       \<and> image_size ((undo ^^ length es) (foldl (apply_edit qp) c es)) = image_size c
       \<and> \<not> can_undo fresh_canvas
       \<and> can_undo (stroke fl qp fresh_canvas (10, 10) (50, 10))"
proof -
  let ?b = "(image_buf c, image_size c)"
  have h0: "hist_ok ?b c" using assms(1) by (simp add: hist_ok_def)
  have l0: "length (undo_stack c) + length es \<le> MAX_UNDO_STATES" using assms by simp
  from foldl_apply_edit_hist [OF h0 l0]
  have h: "hist_ok ?b (foldl (apply_edit qp) c es)"
    and l: "length (undo_stack (foldl (apply_edit qp) c es)) \<le> Suc (length es)"
    using assms(1) by auto
  from undo_pow_baseline [OF h l]
  have "image_buf ((undo ^^ length es) (foldl (apply_edit qp) c es)) = image_buf c"
    and "image_size ((undo ^^ length es) (foldl (apply_edit qp) c es)) = image_size c" by auto
  moreover have "\<not> can_undo fresh_canvas" by (simp add: can_undo_def fresh_fields)
  ultimately show ?thesis using stroke_can_undo by simp
qed

theorem undo_restores_baseline_witness:
  "undo_stack fresh_canvas = [(image_buf fresh_canvas, image_size fresh_canvas)]
   \<and> image_buf (undo (undo (clear_canvas (resize_canvas spec_painter fresh_canvas 400 300))))
       = image_buf fresh_canvas
   \<and> image_size (undo (undo (clear_canvas (resize_canvas spec_painter fresh_canvas 400 300)))) = (800, 600)
   \<and> \<not> can_undo fresh_canvas
   \<and> can_undo (stroke exact spec_painter fresh_canvas (10, 10) (50, 10))"
proof -
  have a: "undo_stack fresh_canvas = [(image_buf fresh_canvas, image_size fresh_canvas)]"
    by (simp add: fresh_fields fresh_image)
  have b: "length [Resize 400 300, Clear] < MAX_UNDO_STATES" by (simp add: MAX_UNDO_STATES_def)
  from undo_restores_baseline [OF a b, where qp = spec_painter and fl = exact] a show ?thesis
    by (simp add: fresh_fields numeral_2_eq_2)
qed

text \<open>The history operations act on the sizes alone as \<open>edit_view\<close> and \<open>undo_view\<close>.\<close>

lemma map_deque_append: "map f (deque_append d x) = deque_append (map f d) (f x)"
  by (simp add: deque_append_def map_tl)

lemma view_apply_edit: "view (apply_edit qp c e) = edit_view (view c) e"
proof (cases e)
  case Clear
  then show ?thesis
    by (simp add: view_def clear_canvas_stack clear_canvas_def save_state_fields Let_def map_deque_append)
next
  case (Resize w h)
  then show ?thesis
    by (simp add: view_def resize_canvas_stack map_deque_append)
qed

lemma view_foldl: "view (foldl (apply_edit qp) c es) = foldl edit_view (view c) es"
  by (induction es arbitrary: c) (simp_all add: view_apply_edit)

lemma view_undo: "view (undo c) = undo_view (view c)"
proof (cases "can_undo c")
  case True
  then have "undo_stack c \<noteq> []" by (auto simp: can_undo_def)
  with True show ?thesis
    by (simp add: view_def undo_fields can_undo_def map_butlast last_map)
next
  case False
  then show ?thesis by (simp add: view_def undo_fields can_undo_def)
qed

lemma view_undo_pow: "view ((undo ^^ n) c) = (undo_view ^^ n) (view c)"
  by (induction n arbitrary: c) (simp_all add: view_undo funpow_swap1)

lemma fifty_view:
  "(undo_view ^^ 50) (foldl edit_view ([(800, 600)], (800, 600)) fifty_resizes) = ([(800, 600)], (1, 1))"
  unfolding fifty_resizes_def by code_simp

text \<open>The claim as stated fails at N = 50, the history capacity: the fiftieth capture
  evicts the baseline entry, the last of fifty \<open>undo\<close>s finds a single entry and does
  nothing, and the buffer is left 1 x 1, not the 800 x 600 baseline.\<close>

theorem fifty_edits_lose_baseline:
  "length fifty_resizes = 50
   \<and> image_size fresh_canvas = (800, 600)
   \<and> image_size ((undo ^^ 50) (foldl (apply_edit spec_painter) fresh_canvas fifty_resizes)) = (1, 1)"
proof -
  have v: "view fresh_canvas = ([(800, 600)], (800, 600))"
    by (simp add: view_def fresh_fields)
  have "view ((undo ^^ 50) (foldl (apply_edit spec_painter) fresh_canvas fifty_resizes)) = ([(800, 600)], (1, 1))"
    by (simp only: view_undo_pow view_foldl v fifty_view)
  then have "image_size ((undo ^^ 50) (foldl (apply_edit spec_painter) fresh_canvas fifty_resizes)) = (1, 1)"
    by (simp add: view_def)
  moreover have "length fifty_resizes = 50" by (simp add: fifty_resizes_def)
  ultimately show ?thesis by (simp add: fresh_fields)
qed

lemma press_brush_image:
  assumes "button e = LeftButton" "current_tool c \<noteq> ''bucket''"
  shows "image_buf (mousePressEvent fl qp c e)
         = image_buf (draw_point qp (c\<lparr>drawing := True, last_point := to_image_coords fl c (position e)\<rparr>)
                           (to_image_coords fl c (position e)))"
  using assms by (simp add: mousePressEvent_def Let_def save_state_fields)

lemma fresh_press_image:
  "image_buf (mousePressEvent exact spec_painter fresh_canvas (press_at (10, 10)))
   = drawPoint spec_painter CompositionMode_SourceOver black 5 (10, 10) (filled_image (800, 600) transparent)"
  by (subst press_brush_image)
     (simp_all add: press_at_def fresh_fields fresh_image draw_point_def current_pen_size_def
        to_image_coords_def exact_def)

lemma fresh_press_stack:
  "undo_stack (mousePressEvent exact spec_painter fresh_canvas (press_at (10, 10)))
   = [(filled_image (800, 600) transparent, (800, 600)),
      (drawPoint spec_painter CompositionMode_SourceOver black 5 (10, 10) (filled_image (800, 600) transparent),
       (800, 600))]"
  by (subst press_brush_stack)
     (simp_all add: press_at_def fresh_fields fresh_image draw_point_def current_pen_size_def
        to_image_coords_def exact_def deque_append_def MAX_UNDO_STATES_def)

lemma dab_pixel:
  "pixelColor (drawPoint spec_painter CompositionMode_SourceOver black 5 (10, 10)
                 (filled_image (800, 600) transparent)) (10, 10) = black"
  by (simp add: spec_painter_def pixelColor_def rect_contains_def filled_image_def in_dab_def
        composite_def source_over_def black_def transparent_def power2_eq_square)

text \<open>
  C2. The press of the left button with the brush at (10, 10) on the fresh canvas, with
  the painter of the specification: the buffer is transparent at (10, 10) before the
  press; the entry the press pushes on the undo stack is the buffer after the dab, black
  at (10, 10). So the top of the undo stack is the state after the mutation. After the
  whole stroke to (50, 10), \<open>undo\<close> gives a buffer that still has the dab, and
  nothing more can be undone.
\<close>

theorem press_captures_after_mutation:
  "pixelColor (image_buf fresh_canvas) (10, 10) = transparent
   \<and> last (undo_stack (mousePressEvent exact spec_painter fresh_canvas (press_at (10, 10))))
       = (image_buf (mousePressEvent exact spec_painter fresh_canvas (press_at (10, 10))), (800, 600))
   \<and> pixelColor (fst (last (undo_stack (mousePressEvent exact spec_painter fresh_canvas (press_at (10, 10))))))
        (10, 10) = black
   \<and> pixelColor (image_buf (undo (stroke exact spec_painter fresh_canvas (10, 10) (50, 10)))) (10, 10) = black
   \<and> \<not> can_undo (undo (stroke exact spec_painter fresh_canvas (10, 10) (50, 10)))"
proof -
  let ?press = "mousePressEvent exact spec_painter fresh_canvas (press_at (10, 10))"
  let ?stroke = "stroke exact spec_painter fresh_canvas (10, 10) (50, 10)"
  have p0: "pixelColor (image_buf fresh_canvas) (10, 10) = transparent"
    by (simp add: fresh_image pixelColor_def rect_contains_def filled_image_def)
  have top: "last (undo_stack ?press) = (image_buf ?press, (800, 600))"
    by (simp add: fresh_press_stack fresh_press_image)
  have px: "pixelColor (fst (last (undo_stack ?press))) (10, 10) = black"
    by (simp add: fresh_press_stack dab_pixel)
  have st: "undo_stack ?stroke = undo_stack ?press"
    by (simp add: stroke_def mouseMoveEvent_stack mouseReleaseEvent_stack)
  have cu: "can_undo ?stroke" by (simp add: can_undo_def st fresh_press_stack)
  have "image_buf (undo ?stroke) = fst (last (undo_stack ?press))"
    using undo_fields(2) [OF cu] st by simp
  then have u1: "pixelColor (image_buf (undo ?stroke)) (10, 10) = black" using px by simp
  have "undo_stack (undo ?stroke) = butlast (undo_stack ?press)"
    using undo_fields(1) [OF cu] st by simp
  then have u2: "\<not> can_undo (undo ?stroke)" by (simp add: can_undo_def fresh_press_stack)
  from p0 top px u1 u2 show ?thesis by simp
qed

section \<open>Coordinates and zoom\<close>

lemma float_min_le: "float_min \<le> 1 / 1024"
proof -
  have "(2::real) ^ 10 \<le> 2 ^ 1022" by (rule power_increasing) simp_all
  then have "1 / (2::real) ^ 1022 \<le> 1 / 2 ^ 10" by (intro divide_left_mono) simp_all
  then show ?thesis by (simp add: float_min_def)
qed

lemma float_max_ge: "2 ^ 36 \<le> float_max"
  unfolding float_max_def by (rule power_increasing) simp_all

lemma standard_model_zero: "standard_model fl \<Longrightarrow> fl 0 = 0"
  unfolding standard_model_def by (drule spec [of _ 0]) simp

lemma standard_model_err:
  assumes "standard_model fl" "1 / 1024 \<le> \<bar>x\<bar>" "\<bar>x\<bar> \<le> 2 ^ 36"
  shows "\<bar>fl x - x\<bar> \<le> \<bar>x\<bar> / 2 ^ 53"
proof -
  have "float_min \<le> \<bar>x\<bar>" using float_min_le assms(2) by linarith
  moreover have "\<bar>x\<bar> \<le> float_max" using float_max_ge assms(3) by linarith
  ultimately show ?thesis using assms(1) unfolding standard_model_def by blast
qed

lemma qRound_near:
  assumes "\<bar>v - of_int x\<bar> < 1 / 2"
  shows "qRound v = x"
proof (cases "v \<ge> 0")
  case True
  have "of_int x \<le> v + 1 / 2" "v + 1 / 2 < of_int x + 1" using assms by linarith+
  then have "\<lfloor>v + 1 / 2\<rfloor> = x" by (simp add: floor_unique)
  with True show ?thesis by (simp add: qRound_def)
next
  case False
  have "of_int x - 1 < v - 1 / 2" "v - 1 / 2 \<le> of_int x" using assms by linarith+
  then have "\<lceil>v - 1 / 2\<rceil> = x" by (simp add: ceiling_unique)
  with False show ?thesis by (simp add: qRound_def)
qed

lemma round_trip_coord:
  assumes sm: "standard_model fl" and s1: "1 / 16 \<le> s" and s2: "s \<le> 16"
    and xb: "\<bar>x\<bar> \<le> 2 ^ 31"
  shows "qRound (fl (fl (of_int x / s) * s)) = x"
proof (cases "x = 0")
  case True
  then show ?thesis using standard_model_zero [OF sm] by (simp add: qRound_def)
next
  case False
  define r :: real where "r = of_int x"
  define u :: real where "u = 1 / 2 ^ 53"
  define q where "q = r / s"
  define a where "a = fl q"
  define m where "m = a * s"
  have spos: "0 < s" using s1 by simp
  have "1 \<le> \<bar>x\<bar>" using False by linarith
  then have "(1::real) \<le> of_int \<bar>x\<bar>" by linarith
  then have r1: "1 \<le> \<bar>r\<bar>" unfolding r_def by simp
  have "\<bar>of_int x :: real\<bar> = of_int \<bar>x\<bar>" by simp
  also have "\<dots> \<le> of_int (2 ^ 31)" using xb by (intro of_int_le_iff [THEN iffD2])
  finally have r2: "\<bar>r\<bar> \<le> 2 ^ 31" unfolding r_def by simp
  have upos: "0 < u" "u \<le> 1 / 2" unfolding u_def by simp_all
  have qabs: "\<bar>q\<bar> = \<bar>r\<bar> / s" unfolding q_def using spos by simp
  have "\<bar>r\<bar> / 16 \<le> \<bar>r\<bar> / s" using s2 spos by (intro divide_left_mono) simp_all
  then have ql: "1 / 1024 \<le> \<bar>q\<bar>" using r1 qabs by linarith
  have "\<bar>r\<bar> / s \<le> \<bar>r\<bar> / (1 / 16)" using s1 by (intro divide_left_mono) simp_all
  then have qu: "\<bar>q\<bar> \<le> 2 ^ 36" using r2 qabs by simp
  have ea: "\<bar>a - q\<bar> \<le> \<bar>q\<bar> * u"
    using standard_model_err [OF sm ql qu] unfolding a_def u_def by simp
  have "m - r = (a - q) * s" unfolding m_def q_def using spos by (simp add: algebra_simps)
  then have "\<bar>m - r\<bar> = \<bar>a - q\<bar> * s" using spos by (simp add: abs_mult)
  also have "\<dots> \<le> (\<bar>q\<bar> * u) * s" using ea spos by (intro mult_right_mono) simp_all
  also have "\<dots> = \<bar>r\<bar> * u" using qabs spos by simp
  finally have em: "\<bar>m - r\<bar> \<le> \<bar>r\<bar> * u" .
  have ru: "\<bar>r\<bar> * u \<le> \<bar>r\<bar> * (1 / 2)" using upos by (intro mult_left_mono) simp_all
  have ml: "1 / 1024 \<le> \<bar>m\<bar>" using em ru r1 by linarith
  have mu: "\<bar>m\<bar> \<le> 2 ^ 32" using em ru r2 by simp
  then have mu': "\<bar>m\<bar> \<le> 2 ^ 36" by simp
  have ef: "\<bar>fl m - m\<bar> \<le> \<bar>m\<bar> * u"
    using standard_model_err [OF sm ml mu'] unfolding u_def by simp
  have "\<bar>m\<bar> * u \<le> 2 ^ 32 * u" using mu upos by (intro mult_right_mono) simp_all
  moreover have "\<bar>r\<bar> * u \<le> 2 ^ 31 * u" using r2 upos by (intro mult_right_mono) simp_all
  ultimately have "\<bar>fl m - r\<bar> \<le> 2 ^ 32 * u + 2 ^ 31 * u" using ef em by linarith
  also have "\<dots> < 1 / 2" unfolding u_def by simp
  finally have "\<bar>fl m - of_int x\<bar> < 1 / 2" unfolding r_def .
  then have "qRound (fl m) = x" by (rule qRound_near)
  then show ?thesis unfolding m_def a_def q_def r_def .
qed

text \<open>
  C7. For every rounding function that meets the error bound of double arithmetic, every
  scale factor between 1/16 and 16 (which covers the valid range from the double nearest
  0.1 up to 16.0) and every screen point with 32-bit coordinates, mapping the point to
  image space (a division by the scale factor) and back (a multiplication, then
  \<^verbatim>\<open>toPoint\<close>'s rounding) gives the point itself: the rounding errors of the two operations
  stay below half a pixel.
\<close>

theorem coordinate_round_trip:
  assumes "standard_model fl"
    and "1 / 16 \<le> scale_factor c" and "scale_factor c \<le> 16"
    and "\<bar>fst p\<bar> \<le> 2 ^ 31" and "\<bar>snd p\<bar> \<le> 2 ^ 31"
  shows "to_widget_coords fl c (to_image_coords fl c (QPointF p)) = p"
  using round_trip_coord [OF assms(1,2,3,4)] round_trip_coord [OF assms(1,2,3,5)]
  by (simp add: to_widget_coords_def to_image_coords_def QPointF_def toPoint_def)

lemma standard_model_exact: "standard_model exact"
  by (simp add: standard_model_def exact_def)

theorem coordinate_round_trip_witness:
  "standard_model exact
   \<and> to_widget_coords exact (fresh_canvas\<lparr>scale_factor := 3 / 2\<rparr>)
       (to_image_coords exact (fresh_canvas\<lparr>scale_factor := 3 / 2\<rparr>) (QPointF (640, -7))) = (640, -7)"
  using coordinate_round_trip [of exact "fresh_canvas\<lparr>scale_factor := 3 / 2\<rparr>" "(640, -7)"]
    standard_model_exact
  by simp

lemma fl_tenth: assumes "standard_model fl" shows "0 < fl (1 / 10)" "fl (1 / 10) \<le> 16"
proof -
  have "\<bar>fl (1 / 10) - 1 / 10\<bar> \<le> \<bar>1 / 10\<bar> / 2 ^ 53"
    by (rule standard_model_err [OF assms]) simp_all
  then have "\<bar>fl (1 / 10) - 1 / 10\<bar> \<le> 1 / 20" by simp
  then show "0 < fl (1 / 10)" "fl (1 / 10) \<le> 16" by linarith+
qed

lemma fl_thousandth: assumes "standard_model fl" shows "0 < fl (1 / 1000)"
proof -
  have "\<bar>fl (1 / 1000) - 1 / 1000\<bar> \<le> \<bar>1 / 1000\<bar> / 2 ^ 53"
    by (rule standard_model_err [OF assms]) simp_all
  then have "\<bar>fl (1 / 1000) - 1 / 1000\<bar> \<le> 1 / 2000" by simp
  then show ?thesis by linarith
qed

lemma zoom_below_threshold:
  "\<bar>fl (zoom_new_scale fl (scale_factor c) factor - scale_factor c)\<bar> < fl (1 / 1000)
   \<Longrightarrow> zoom_at_point fl c bars widget_point factor = c"
  by (simp add: zoom_at_point_def Let_def)

lemma zoom_above_threshold:
  assumes "\<not> \<bar>fl (zoom_new_scale fl (scale_factor c) factor - scale_factor c)\<bar> < fl (1 / 1000)"
  shows "scale_factor (zoom_at_point fl c bars widget_point factor)
           = zoom_new_scale fl (scale_factor c) factor"
    and "image_buf (zoom_at_point fl c bars widget_point factor) = image_buf c"
    and "undo_stack (zoom_at_point fl c bars widget_point factor) = undo_stack c"
  using assms by (simp_all add: zoom_at_point_def Let_def)

lemma zoom_new_scale_range:
  assumes "standard_model fl"
  shows "fl (1 / 10) \<le> zoom_new_scale fl s factor" "zoom_new_scale fl s factor \<le> 16"
  using fl_tenth(2) [OF assms] by (simp_all add: zoom_new_scale_def)

lemma fresh_zoom_double:
  "scroll_calls (zoom_at_point exact fresh_canvas (0, 0) (400, 300) 2)
     = [h_bar_setValue 400, v_bar_setValue 300]"
  by (simp add: zoom_at_point_def zoom_new_scale_def exact_def fresh_fields QPointF_def
        py_round_def fits_int_def Let_def)

text \<open>
  C6. For every rounding function that meets the error bound of double arithmetic, every
  canvas, scroll bar values, anchor point and factor: the new scale is the product of the
  current scale and the factor clamped into [0.1, 16], and the scale factor
  \<open>zoom_at_point\<close> leaves is the current one when the difference of the two is below
  0.001 and the new scale otherwise, in the range [0.1, 16] then. Below the threshold the
  canvas is returned as it is: the scale factor is unchanged and no scroll bar is given
  a value. This is so when clamping gives back the current scale, and for factor 1.0 on
  a scale factor in the valid range.
\<close>

theorem zoom_at_point_noop:
  assumes "standard_model fl"
  shows "zoom_new_scale fl (scale_factor c) factor
           = clamp (fl (1 / 10)) 16 (fl (scale_factor c * factor))
       \<and> scale_factor (zoom_at_point fl c bars widget_point factor)
           = (if \<bar>fl (zoom_new_scale fl (scale_factor c) factor - scale_factor c)\<bar> < fl (1 / 1000)
              then scale_factor c
              else clamp (fl (1 / 10)) 16 (fl (scale_factor c * factor)))
       \<and> (\<not> \<bar>fl (zoom_new_scale fl (scale_factor c) factor - scale_factor c)\<bar> < fl (1 / 1000)
            \<longrightarrow> fl (1 / 10) \<le> scale_factor (zoom_at_point fl c bars widget_point factor)
              \<and> scale_factor (zoom_at_point fl c bars widget_point factor) \<le> 16
              \<and> image_buf (zoom_at_point fl c bars widget_point factor) = image_buf c
              \<and> undo_stack (zoom_at_point fl c bars widget_point factor) = undo_stack c)
       \<and> (\<bar>fl (zoom_new_scale fl (scale_factor c) factor - scale_factor c)\<bar> < fl (1 / 1000)
            \<longrightarrow> zoom_at_point fl c bars widget_point factor = c)
       \<and> (zoom_new_scale fl (scale_factor c) factor = scale_factor c
            \<longrightarrow> zoom_at_point fl c bars widget_point factor = c)
       \<and> (fl (scale_factor c) = scale_factor c \<and> fl (1 / 10) \<le> scale_factor c \<and> scale_factor c \<le> 16
            \<longrightarrow> zoom_at_point fl c bars widget_point 1 = c)"
proof -
  have cl: "zoom_new_scale fl (scale_factor c) factor
              = clamp (fl (1 / 10)) 16 (fl (scale_factor c * factor))"
    using fl_tenth(2) [OF assms] by (simp add: zoom_new_scale_def clamp_def max_def min_def)
  have sc: "scale_factor (zoom_at_point fl c bars widget_point factor)
           = (if \<bar>fl (zoom_new_scale fl (scale_factor c) factor - scale_factor c)\<bar> < fl (1 / 1000)
              then scale_factor c
              else clamp (fl (1 / 10)) 16 (fl (scale_factor c * factor)))"
  proof (cases "\<bar>fl (zoom_new_scale fl (scale_factor c) factor - scale_factor c)\<bar> < fl (1 / 1000)")
    case True
    then show ?thesis by (simp add: zoom_below_threshold)
  next
    case False
    then show ?thesis using zoom_above_threshold(1) [OF False] cl by simp
  qed
  show ?thesis
  proof (intro conjI impI)
    show "zoom_new_scale fl (scale_factor c) factor
              = clamp (fl (1 / 10)) 16 (fl (scale_factor c * factor))" by (rule cl)
  next
    show "scale_factor (zoom_at_point fl c bars widget_point factor)
           = (if \<bar>fl (zoom_new_scale fl (scale_factor c) factor - scale_factor c)\<bar> < fl (1 / 1000)
              then scale_factor c
              else clamp (fl (1 / 10)) 16 (fl (scale_factor c * factor)))" by (rule sc)
  next
    assume a: "\<not> \<bar>fl (zoom_new_scale fl (scale_factor c) factor - scale_factor c)\<bar> < fl (1 / 1000)"
    show "fl (1 / 10) \<le> scale_factor (zoom_at_point fl c bars widget_point factor)"
      using zoom_above_threshold(1) [OF a] zoom_new_scale_range(1) [OF assms] by simp
    show "scale_factor (zoom_at_point fl c bars widget_point factor) \<le> 16"
      using zoom_above_threshold(1) [OF a] zoom_new_scale_range(2) [OF assms] by simp
    show "image_buf (zoom_at_point fl c bars widget_point factor) = image_buf c"
      by (rule zoom_above_threshold(2) [OF a])
    show "undo_stack (zoom_at_point fl c bars widget_point factor) = undo_stack c"
      by (rule zoom_above_threshold(3) [OF a])
  next
    assume "\<bar>fl (zoom_new_scale fl (scale_factor c) factor - scale_factor c)\<bar> < fl (1 / 1000)"
    then show "zoom_at_point fl c bars widget_point factor = c" by (rule zoom_below_threshold)
  next
    assume "zoom_new_scale fl (scale_factor c) factor = scale_factor c"
    then have "\<bar>fl (zoom_new_scale fl (scale_factor c) factor - scale_factor c)\<bar> < fl (1 / 1000)"
      using standard_model_zero [OF assms] fl_thousandth [OF assms] by simp
    then show "zoom_at_point fl c bars widget_point factor = c" by (rule zoom_below_threshold)
  next
    assume a: "fl (scale_factor c) = scale_factor c \<and> fl (1 / 10) \<le> scale_factor c \<and> scale_factor c \<le> 16"
    then have "zoom_new_scale fl (scale_factor c) 1 = scale_factor c"
      by (simp add: zoom_new_scale_def)
    then have "\<bar>fl (zoom_new_scale fl (scale_factor c) 1 - scale_factor c)\<bar> < fl (1 / 1000)"
      using standard_model_zero [OF assms] fl_thousandth [OF assms] by simp
    then show "zoom_at_point fl c bars widget_point 1 = c" by (rule zoom_below_threshold)
  qed
qed

theorem zoom_at_point_noop_witness:
  "standard_model exact
   \<and> zoom_new_scale exact 1 1 = 1
   \<and> zoom_at_point exact fresh_canvas (0, 0) (400, 300) 1 = fresh_canvas
   \<and> zoom_at_point exact (fresh_canvas\<lparr>scale_factor := 16\<rparr>) (0, 0) (400, 300) (23 / 20)
       = fresh_canvas\<lparr>scale_factor := 16\<rparr>
   \<and> scale_factor (zoom_at_point exact fresh_canvas (0, 0) (400, 300) 2) = 2
   \<and> scroll_calls (zoom_at_point exact fresh_canvas (0, 0) (400, 300) 2)
       = [h_bar_setValue 400, v_bar_setValue 300]
   \<and> scale_factor (zoom_at_point exact (fresh_canvas\<lparr>scale_factor := 1 / 8\<rparr>) (0, 0) (400, 300) (1 / 2))
       = 1 / 10"
proof -
  have sm: "standard_model exact" by (rule standard_model_exact)
  have n1: "zoom_new_scale exact 1 1 = 1" by (simp add: zoom_new_scale_def exact_def)
  have n2: "zoom_new_scale exact 16 (23 / 20) = 16" by (simp add: zoom_new_scale_def exact_def)
  have n3: "zoom_new_scale exact 1 2 = 2" by (simp add: zoom_new_scale_def exact_def)
  have n4: "zoom_new_scale exact (1 / 8) (1 / 2) = 1 / 10" by (simp add: zoom_new_scale_def exact_def)
  from zoom_at_point_noop [OF sm, where c = fresh_canvas and factor = 1 and bars = "(0, 0)"
      and widget_point = "(400, 300)"]
  have a: "zoom_at_point exact fresh_canvas (0, 0) (400, 300) 1 = fresh_canvas"
    by (simp add: fresh_fields n1)
  from zoom_at_point_noop [OF sm, where c = "fresh_canvas\<lparr>scale_factor := 16\<rparr>" and factor = "23 / 20"
      and bars = "(0, 0)" and widget_point = "(400, 300)"]
  have b: "zoom_at_point exact (fresh_canvas\<lparr>scale_factor := 16\<rparr>) (0, 0) (400, 300) (23 / 20)
       = fresh_canvas\<lparr>scale_factor := 16\<rparr>"
    by (simp add: n2)
  from zoom_at_point_noop [OF sm, where c = fresh_canvas and factor = 2 and bars = "(0, 0)"
      and widget_point = "(400, 300)"]
  have d: "scale_factor (zoom_at_point exact fresh_canvas (0, 0) (400, 300) 2) = 2"
    by (simp add: fresh_fields n3 exact_def clamp_def)
  from zoom_at_point_noop [OF sm, where c = "fresh_canvas\<lparr>scale_factor := 1 / 8\<rparr>" and factor = "1 / 2"
      and bars = "(0, 0)" and widget_point = "(400, 300)"]
  have e: "scale_factor (zoom_at_point exact (fresh_canvas\<lparr>scale_factor := 1 / 8\<rparr>) (0, 0) (400, 300) (1 / 2))
       = 1 / 10"
    by (simp add: n4 exact_def clamp_def)
  from sm n1 a b d e fresh_zoom_double show ?thesis by simp
qed

end
